theory Spec2Isabelle
  imports Main "HOL-Library.Word"
begin

unbundle bit_operations_syntax

section \<open>Common machinery\<close>

type_synonym u8 = "8 word"
type_synonym u32 = "32 word"

text \<open>
  The ways a call can leave the program instead of returning: a failed \<open>MS_ASSERT\<close> or
  \<open>MS_ABORT\<close> (the process aborts), an access outside the bounds of a buffer, and an access
  to a buffer that has been deleted. A function that can do so returns \<open>fault + 'a\<close>.
\<close>

datatype fault = Aborted | OutOfBounds | UseAfterFree

definition bindF :: "fault + 'a \<Rightarrow> ('a \<Rightarrow> fault + 'b) \<Rightarrow> fault + 'b" where
  "bindF m f = (case m of Inl e \<Rightarrow> Inl e | Inr x \<Rightarrow> f x)"

text \<open>
  \<open>std::memcpy(dst + d, src + s, n)\<close> on buffers given as byte lists; both ranges have to
  lie inside their buffers.
\<close>

definition memcpy :: "u8 list \<Rightarrow> nat \<Rightarrow> u8 list \<Rightarrow> nat \<Rightarrow> nat \<Rightarrow> fault + u8 list" where
  "memcpy dst d src s n =
     (if d + n \<le> length dst \<and> s + n \<le> length src
      then Inr (take d dst @ take n (drop s src) @ drop (d + n) dst)
      else Inl OutOfBounds)"

text \<open>\<open>buf[i] = v\<close>, bounds checked.\<close>

definition store_byte :: "u8 list \<Rightarrow> nat \<Rightarrow> u8 \<Rightarrow> fault + u8 list" where
  "store_byte buf i v = (if i < length buf then Inr (buf[i := v]) else Inl OutOfBounds)"

text \<open>
  \<open>new uint8_t[n]\<close>: the array is not initialised. Its content is whatever the allocator
  hands out, given by \<open>junk\<close> (index to byte).
\<close>

definition new_array :: "(nat \<Rightarrow> u8) \<Rightarrow> nat \<Rightarrow> u8 list" where
  "new_array junk n = map junk [0..<n]"

definition zero_fill :: "nat \<Rightarrow> u8" where
  "zero_fill i = 0"

section \<open>RtpPacket\<close>

text \<open>
  An \<open>RtpPacket\<close> is a view over one buffer \<open>raw\<close>. Its pointers \<open>header\<close>, \<open>csrcList\<close>,
  \<open>extensionHeader\<close> and \<open>payload\<close> all point into that buffer (\<open>Parse\<close>, \<open>Serialize\<close> and
  \<open>Clone\<close> set them so), hence they are offsets into \<open>raw\<close>; \<open>nullptr\<close> is \<open>None\<close>.
  The field \<open>length\<close> of the class is \<open>length_rtp\<close>.
\<close>

record RtpPacket =
  header :: nat
  csrcList :: "nat option"
  extensionHeader :: "nat option"
  payload :: "nat option"
  payloadLength :: nat
  payloadPadding :: u8
  raw :: "u8 list"
  length_rtp :: nat
  isSerialized :: bool

text \<open>
  Modelled from the spec: the declarations of \<open>RTC/RtpPacket.h\<close> (struct \<open>Header\<close>, struct
  \<open>ExtensionHeader\<close>, \<open>IsRtp\<close>) are missing. The spec gives a fixed 12-byte header after
  RFC 3550 section 5.1 (first byte: 2 bits version, padding flag, extension flag, 4 bits CSRC
  count), an extension header of profile id and a 16-bit length in 32-bit words, and
  \<open>IsRtp\<close> as \<open>len \<ge> 12\<close> and \<open>(buf[0] >> 6) == 2\<close>.
\<close>

definition sizeof_Header :: nat where
  "sizeof_Header = 12"

definition csrc_count :: "u8 list \<Rightarrow> nat \<Rightarrow> nat" where
  "csrc_count mem h = unat ((mem ! h) AND 0x0F)"

definition extension :: "u8 list \<Rightarrow> nat \<Rightarrow> bool" where
  "extension mem h = ((mem ! h) AND 0x10 \<noteq> 0)"

definition padding :: "u8 list \<Rightarrow> nat \<Rightarrow> bool" where
  "padding mem h = ((mem ! h) AND 0x20 \<noteq> 0)"

definition IsRtp :: "u8 list \<Rightarrow> bool" where
  "IsRtp data = (length data \<ge> sizeof_Header \<and> drop_bit 6 (data ! 0) = 2)"

text \<open>\<open>ntohs(extensionHeader->length)\<close>: the big-endian 16-bit field at offset 2 of the
  extension header that starts at \<open>e\<close>.\<close>

definition ntohs_length :: "u8 list \<Rightarrow> nat \<Rightarrow> nat" where
  "ntohs_length mem e = unat (mem ! (e + 2)) * 256 + unat (mem ! (e + 3))"

text \<open>
  The constructor: it stores its arguments and points \<open>csrcList\<close> behind the fixed header
  of \<open>raw\<close> when the header announces CSRCs. In \<open>Parse\<close> the header pointer is \<open>data\<close>
  itself, offset 0 of \<open>raw\<close>.
\<close>

definition RtpPacket_new ::
  "nat \<Rightarrow> nat option \<Rightarrow> nat option \<Rightarrow> nat \<Rightarrow> u8 \<Rightarrow> u8 list \<Rightarrow> nat \<Rightarrow> RtpPacket" where
  "RtpPacket_new hdr ext pl plLen plPad rawbuf len =
     \<lparr> header = hdr,
       csrcList = (if csrc_count rawbuf hdr \<noteq> 0 then Some (0 + sizeof_Header) else None),
       extensionHeader = ext,
       payload = pl,
       payloadLength = plLen,
       payloadPadding = plPad,
       raw = rawbuf,
       length_rtp = len,
       isSerialized = False \<rparr>"

text \<open>
  The first part of \<open>RtpPacket::Parse\<close> (source lines 17 to 71): the \<open>IsRtp\<close> test, the CSRC
  list and the header extension. \<open>None\<close> is \<open>return nullptr\<close>; otherwise the values of
  \<open>pos\<close>, \<open>csrc_list_size\<close>, \<open>extensionHeader\<close> and \<open>extension_value_size\<close> at line 72.
\<close>

definition Parse_headers :: "u8 list \<Rightarrow> (nat \<times> nat \<times> nat option \<times> nat) option" where
  "Parse_headers data =
     (let len = length data in
      if \<not> IsRtp data then None
      else
        let pos0 = sizeof_Header;
            cc = csrc_count data 0;
            csrc_list_size = (if cc \<noteq> 0 then cc * 4 else 0)
        in
        if cc \<noteq> 0 \<and> len < pos0 + csrc_list_size then None
        else
          let pos1 = (if cc \<noteq> 0 then pos0 + csrc_list_size else pos0) in
          if extension data 0 then
            if len < pos1 + 4 then None
            else
              let extension_value_size = ntohs_length data pos1 * 4 in
              if len < pos1 + 4 + extension_value_size then None
              else Some (pos1 + 4 + extension_value_size, csrc_list_size, Some pos1,
                         extension_value_size)
          else Some (pos1, csrc_list_size, None, 0))"

text \<open>
  The size of the region behind the 12-byte header, the CSRC list that the header announces
  and the extension that it announces (four bytes and as many 32-bit words as its length
  field says), read off the buffer; 0 when the buffer is too short to hold them.
\<close>

definition region_size :: "u8 list \<Rightarrow> nat" where
  "region_size data =
     length data
     - (sizeof_Header + 4 * csrc_count data 0
        + (if extension data 0
           then 4 + 4 * ntohs_length data (sizeof_Header + 4 * csrc_count data 0) else 0))"

text \<open>
  The rest of \<open>RtpPacket::Parse\<close> (lines 73 to 113) for given \<open>payloadLength\<close> and
  \<open>payloadPadding\<close> after the padding check: the payload pointer, the second \<open>MS_ASSERT\<close>
  and the construction of the packet.
\<close>

definition Parse_finish ::
  "u8 list \<Rightarrow> nat \<Rightarrow> nat \<Rightarrow> nat option \<Rightarrow> nat \<Rightarrow> nat \<Rightarrow> u8 \<Rightarrow> fault + RtpPacket option" where
  "Parse_finish data pos csrc_list_size ext extension_value_size plLen plPad =
     (let len = length data;
          pl = (if plLen = 0 then None else Some pos)
      in
      if len = sizeof_Header + csrc_list_size
                 + (case ext of Some e \<Rightarrow> 4 + extension_value_size | None \<Rightarrow> 0)
                 + plLen + unat plPad
      then Inr (Some (RtpPacket_new 0 ext pl plLen plPad data len))
      else Inl Aborted)"

text \<open>
  \<open>RtpPacket::Parse(data, len)\<close> with \<open>len = length data\<close>. \<open>Inr None\<close> is
  \<open>return nullptr\<close>, \<open>Inl Aborted\<close> a failed \<open>MS_ASSERT\<close>. The subtraction
  \<open>len - pos\<close> of line 75 is evaluated after the assertion of line 78 here, which
  aborts before the value is used when \<open>len < pos\<close>.
\<close>

definition Parse :: "u8 list \<Rightarrow> fault + RtpPacket option" where
  "Parse data =
     (case Parse_headers data of
        None \<Rightarrow> Inr None
      | Some (pos, csrc_list_size, ext, extension_value_size) \<Rightarrow>
          let len = length data in
          if \<not> (len \<ge> pos) then Inl Aborted
          else
            let payloadLength0 = len - pos in
            if padding data 0 then
              if payloadLength0 = 0 then Inr None
              else
                let payloadPadding0 = data ! (len - 1) in
                if payloadPadding0 = 0 then Inr None
                else if payloadLength0 < unat payloadPadding0 then Inr None
                else Parse_finish data pos csrc_list_size ext extension_value_size
                       (payloadLength0 - unat payloadPadding0) payloadPadding0
            else Parse_finish data pos csrc_list_size ext extension_value_size payloadLength0 0)"

text \<open>
  The three copy blocks of \<open>RtpPacket::Serialize\<close> (CSRC list, extension header,
  payload) have one shape: \<open>if (ptr) { std::memcpy(raw + pos, ptr, n); pos += n; }\<close>,
  with \<open>ptr\<close> pointing into the old buffer.
\<close>

definition copy_block ::
  "u8 list \<Rightarrow> nat \<Rightarrow> u8 list \<Rightarrow> nat option \<Rightarrow> nat \<Rightarrow> fault + (u8 list \<times> nat)" where
  "copy_block new pos old ptr n =
     (case ptr of
        None \<Rightarrow> Inr (new, pos)
      | Some q \<Rightarrow> bindF (memcpy new pos old q n) (\<lambda>r. Inr (r, pos + n)))"

text \<open>
  The padding block of \<open>RtpPacket::Serialize\<close> (lines 237 to 241): only the last padding
  byte is written.
\<close>

definition add_payload_padding :: "u8 list \<Rightarrow> nat \<Rightarrow> u8 \<Rightarrow> fault + (u8 list \<times> nat)" where
  "add_payload_padding new pos pad =
     (if pad \<noteq> 0
      then bindF (store_byte new (pos + unat pad - 1) pad) (\<lambda>r. Inr (r, pos + unat pad))
      else Inr (new, pos))"

text \<open>
  \<open>RtpPacket::Serialize\<close>. A packet that has been serialised before deletes its buffer
  first, and then copies from the pointers into it. Otherwise the new buffer has the computed
  length and is not initialised; header, CSRC list, extension and payload are copied into
  it, and the padding block follows. After the header is copied, \<open>this->header\<close> is the
  new buffer, so the CSRC count of the copy block is read there.
\<close>

definition Serialize :: "(nat \<Rightarrow> u8) \<Rightarrow> RtpPacket \<Rightarrow> fault + RtpPacket" where
  "Serialize junk p =
     (if isSerialized p then Inl UseAfterFree
      else
        let old = raw p in
        bindF (if header p + sizeof_Header \<le> length old then Inr (csrc_count old (header p))
               else Inl OutOfBounds) (\<lambda>cc.
        bindF (case extensionHeader p of
                 None \<Rightarrow> Inr 0
               | Some e \<Rightarrow> if e + 4 \<le> length old then Inr (ntohs_length old e * 4)
                           else Inl OutOfBounds) (\<lambda>extension_value_size.
        let len = sizeof_Header
                  + (case csrcList p of None \<Rightarrow> 0 | Some c \<Rightarrow> cc * 4)
                  + (case extensionHeader p of None \<Rightarrow> 0 | Some e \<Rightarrow> 4 + extension_value_size)
                  + payloadLength p
                  + unat (payloadPadding p);
            new = new_array junk len
        in
        bindF (memcpy new 0 old (header p) sizeof_Header) (\<lambda>r1.
        bindF (copy_block r1 sizeof_Header old (csrcList p) (csrc_count r1 0 * 4)) (\<lambda>(r2, pos2).
        bindF (copy_block r2 pos2 old (extensionHeader p) (4 + extension_value_size)) (\<lambda>(r3, pos3).
        bindF (copy_block r3 pos3 old (payload p) (payloadLength p)) (\<lambda>(r4, pos4).
        bindF (add_payload_padding r4 pos4 (payloadPadding p)) (\<lambda>(r5, pos5).
        if pos5 = len
        then Inr (p\<lparr> header := 0,
                     csrcList := map_option (\<lambda>c. sizeof_Header) (csrcList p),
                     extensionHeader := map_option (\<lambda>e. pos2) (extensionHeader p),
                     payload := map_option (\<lambda>q. pos3) (payload p),
                     raw := r5,
                     length_rtp := len,
                     isSerialized := True \<rparr>)
        else Inl Aborted))))))))"

text \<open>Parsing a buffer and serialising the packet at once: the bytes of the new buffer.\<close>

definition parse_serialize :: "(nat \<Rightarrow> u8) \<Rightarrow> u8 list \<Rightarrow> u8 list option" where
  "parse_serialize junk data =
     (case Parse data of
        Inr (Some p) \<Rightarrow> (case Serialize junk p of Inr q \<Rightarrow> Some (raw q) | Inl e \<Rightarrow> None)
      | _ \<Rightarrow> None)"

section \<open>RTCP BYE packet\<close>

text \<open>
  \<open>size_t\<close> is an unsigned 64-bit integer here; sizes and offsets are natural numbers below
  \<open>2 ^ 64\<close>, and the two operations of the code that can wrap are written out.
\<close>

definition size_t_sub :: "nat \<Rightarrow> nat \<Rightarrow> nat" where
  "size_t_sub a b = (if b \<le> a then a - b else a + 2 ^ 64 - b)"

definition size_t_neg :: "nat \<Rightarrow> nat" where
  "size_t_neg a = (2 ^ 64 - a mod 2 ^ 64) mod 2 ^ 64"

text \<open>
  Modelled from the spec: \<open>Utils.h\<close> (\<open>Utils::Byte\<close>) is missing. The spec gives reads and
  writes of 1 to 4 bytes in network byte order over (buffer, offset), which do not check
  bounds themselves. An access outside the buffer is the fault \<open>OutOfBounds\<close> here.
\<close>

definition Get1Byte :: "u8 list \<Rightarrow> nat \<Rightarrow> fault + u8" where
  "Get1Byte data i = (if i < length data then Inr (data ! i) else Inl OutOfBounds)"

text \<open>
  The read of the length byte in \<open>ByePacket::Parse\<close>, \<open>Get1Byte(data + offset, 0)\<close>, is
  not guarded by a bounds test in the code. When \<open>offset\<close> is the length of the datagram, it
  yields the byte that lies right behind the datagram in the memory of the caller, \<open>past\<close>.
\<close>

definition Get1Byte_past :: "u8 \<Rightarrow> u8 list \<Rightarrow> nat \<Rightarrow> fault + u8" where
  "Get1Byte_past past data i =
     (if i < length data then Inr (data ! i)
      else if i = length data then Inr past
      else Inl OutOfBounds)"

definition be32 :: "u8 \<Rightarrow> u8 \<Rightarrow> u8 \<Rightarrow> u8 \<Rightarrow> u32" where
  "be32 a b c d = push_bit 24 (ucast a) OR push_bit 16 (ucast b) OR push_bit 8 (ucast c) OR ucast d"

definition Get4Bytes :: "u8 list \<Rightarrow> nat \<Rightarrow> fault + u32" where
  "Get4Bytes data i =
     (if i + 4 \<le> length data
      then Inr (be32 (data ! i) (data ! (i + 1)) (data ! (i + 2)) (data ! (i + 3)))
      else Inl OutOfBounds)"

definition Set1Byte :: "u8 list \<Rightarrow> nat \<Rightarrow> u8 \<Rightarrow> fault + u8 list" where
  "Set1Byte data i v = store_byte data i v"

text \<open>
  Modelled from the spec: \<open>RTC/RTCP/Bye.h\<close> and \<open>RTC/RTCP/Packet.h\<close> are missing. A BYE
  packet holds its SSRCs in order (\<open>AddSsrc\<close> appends) and a reason string, empty until
  \<open>SetReason\<close>. The common header has 4 bytes: 2 bits version, 1 bit padding, 5 bits item
  count, 8 bits packet type, 16 bits length in 32-bit words minus one.
\<close>

record ByePacket =
  ssrcs :: "u32 list"
  reason :: string

definition sizeof_CommonHeader :: nat where
  "sizeof_CommonHeader = 4"

definition header_count :: "u8 \<Rightarrow> u8" where
  "header_count b0 = b0 AND 0x1F"

text \<open>
  The loop of \<open>ByePacket::Parse\<close> (lines 25 to 36). \<open>count--\<close> yields the old value and
  then decrements the \<open>uint8_t\<close>, also when the old value is 0 (the new one is 255) and
  also when the second operand of \<open>&&\<close> ends the loop. \<open>None\<close> is \<open>return nullptr\<close>;
  otherwise the values of \<open>count\<close> and \<open>offset\<close> and the SSRCs added when the loop is left.
\<close>

function Parse_ssrcs ::
  "u8 list \<Rightarrow> u8 \<Rightarrow> nat \<Rightarrow> u32 list \<Rightarrow> fault + (u8 \<times> nat \<times> u32 list) option" where
  "Parse_ssrcs data count offset acc =
     (if count \<noteq> 0 then
        if size_t_sub (length data) offset > 0 then
          if 4 > size_t_sub (length data) offset then Inr None
          else
            (case Get4Bytes data offset of
               Inl e \<Rightarrow> Inl e
             | Inr ssrc \<Rightarrow> Parse_ssrcs data (count - 1) (offset + 4) (acc @ [ssrc]))
        else Inr (Some (count - 1, offset, acc))
      else Inr (Some (count - 1, offset, acc)))"
  by pat_completeness auto
termination
  by (relation "measure (\<lambda>(data, count, offset, acc). unat count)")
     (auto simp: unat_minus_one unat_gt_0)

declare Parse_ssrcs.simps [simp del]

text \<open>\<open>std::string((char*)data + offset, length)\<close>: \<open>length\<close> bytes from \<open>offset\<close> on.\<close>

definition string_at :: "u8 list \<Rightarrow> nat \<Rightarrow> nat \<Rightarrow> fault + string" where
  "string_at data offset n =
     (if offset + n \<le> length data
      then Inr (map (\<lambda>b. char_of (unat b)) (take n (drop offset data)))
      else Inl OutOfBounds)"

text \<open>
  \<open>ByePacket::Parse(data, len)\<close> with \<open>len = length data\<close>, and with \<open>past\<close> the byte
  behind the datagram. \<open>Inr None\<close> is \<open>return nullptr\<close>.
\<close>

definition Bye_Parse :: "u8 \<Rightarrow> u8 list \<Rightarrow> fault + ByePacket option" where
  "Bye_Parse past data =
     bindF (Get1Byte data 0) (\<lambda>b0.
     bindF (Parse_ssrcs data (header_count b0) sizeof_CommonHeader []) (\<lambda>r.
       case r of
         None \<Rightarrow> Inr None
       | Some (count, offset, ss) \<Rightarrow>
           let packet = \<lparr> ssrcs = ss, reason = [] \<rparr> in
           if count = 0 then
             bindF (Get1Byte_past past data offset) (\<lambda>l.
               let len1 = unat l in
               if 1 + len1 \<le> size_t_sub (length data) offset
               then bindF (string_at data offset len1)
                          (\<lambda>str. Inr (Some (packet\<lparr> reason := str \<rparr>)))
               else Inr (Some packet))
           else Inr (Some packet)))"

text \<open>
  Modelled from the spec: \<open>Packet::Serialize\<close> (\<open>Packet.cpp\<close>) and \<open>GetSize\<close>, \<open>GetCount\<close>
  (\<open>Bye.h\<close>) are missing. \<open>Packet::Serialize\<close> fills the common header at the start of the
  buffer (version 2, no padding, the item count, packet type 203 for BYE, the length of the
  4-byte-aligned packet in 32-bit words minus one) and returns the size of the header.
\<close>

definition Bye_GetSize :: "ByePacket \<Rightarrow> nat" where
  "Bye_GetSize p =
     (let size = sizeof_CommonHeader + 4 * length (ssrcs p)
                 + (if reason p \<noteq> [] then 1 + length (reason p) else 0)
      in ((size + 3) div 4) * 4)"

definition Packet_Serialize :: "ByePacket \<Rightarrow> u8 list \<Rightarrow> fault + (nat \<times> u8 list)" where
  "Packet_Serialize p data =
     (let len1 = Bye_GetSize p div 4 - 1;
          hdr = [0x80 OR (of_nat (length (ssrcs p)) AND 0x1F), 203,
                 of_nat (len1 div 256), of_nat len1] :: u8 list
      in bindF (memcpy data 0 hdr 0 sizeof_CommonHeader) (\<lambda>d. Inr (sizeof_CommonHeader, d)))"

text \<open>
  The bytes of a \<open>uint32_t\<close> in memory, as \<open>std::memcpy(data, &ssrc, 4)\<close> reads them:
  least significant byte first on a little-endian host (\<open>le\<close>), last otherwise.
\<close>

definition host_bytes :: "bool \<Rightarrow> u32 \<Rightarrow> u8 list" where
  "host_bytes le w =
     (let be = [ucast (drop_bit 24 w), ucast (drop_bit 16 w), ucast (drop_bit 8 w), ucast w]
      in if le then rev be else be)"

text \<open>
  The SSRC loop of \<open>ByePacket::Serialize\<close> (lines 58 to 62): each SSRC is copied to the
  start of \<open>data\<close>, and \<open>offset\<close> advances by 4.
\<close>

fun Serialize_ssrcs :: "bool \<Rightarrow> u32 list \<Rightarrow> u8 list \<Rightarrow> nat \<Rightarrow> fault + (u8 list \<times> nat)" where
  "Serialize_ssrcs le [] data offset = Inr (data, offset)"
| "Serialize_ssrcs le (ssrc # rest) data offset =
     (case memcpy data 0 (host_bytes le ssrc) 0 4 of
        Inl e \<Rightarrow> Inl e
      | Inr d \<Rightarrow> Serialize_ssrcs le rest d (offset + 4))"

text \<open>The padding loop (lines 73 to 76): \<open>data[offset + i] = 0\<close> for \<open>i\<close> below \<open>padding\<close> (here \<open>padding1\<close>).\<close>

function Serialize_padding :: "u8 list \<Rightarrow> nat \<Rightarrow> nat \<Rightarrow> nat \<Rightarrow> fault + u8 list" where
  "Serialize_padding data offset padding1 i =
     (if i < padding1 then
        (case store_byte data (offset + i) 0 of
           Inl e \<Rightarrow> Inl e
         | Inr d \<Rightarrow> Serialize_padding d offset padding1 (i + 1))
      else Inr data)"
  by pat_completeness auto
termination
  by (relation "measure (\<lambda>(data, offset, padding1, i). padding1 - i)") auto

declare Serialize_padding.simps [simp del]

text \<open>
  \<open>ByePacket::Serialize(data)\<close>; the buffer of the caller is \<open>data\<close>. The result is the
  returned size and the buffer. Of the reason only the length byte is written.
\<close>

definition Bye_Serialize :: "bool \<Rightarrow> ByePacket \<Rightarrow> u8 list \<Rightarrow> fault + (nat \<times> u8 list)" where
  "Bye_Serialize le p data =
     bindF (Packet_Serialize p data) (\<lambda>(offset0, d0).
     bindF (Serialize_ssrcs le (ssrcs p) d0 offset0) (\<lambda>(d1, offset1).
     bindF (if reason p \<noteq> []
            then bindF (Set1Byte d1 offset1 (of_nat (length (reason p))))
                       (\<lambda>d. Inr (d, offset1 + 1 + length (reason p)))
            else Inr (d1, offset1)) (\<lambda>(d2, offset2).
     let padding1 = size_t_neg offset2 AND 3 in
     bindF (Serialize_padding d2 offset2 padding1 0) (\<lambda>d3.
     Inr (offset2 + padding1, d3)))))"

text \<open>The offset that \<open>ByePacket::Serialize\<close> reaches behind the SSRCs and the reason,
  before it pads.\<close>

definition unpadded_offset :: "ByePacket \<Rightarrow> nat" where
  "unpadded_offset p =
     sizeof_CommonHeader + 4 * length (ssrcs p)
     + (if reason p \<noteq> [] then 1 + length (reason p) else 0)"

text \<open>The \<open>n\<close> SSRCs that a datagram holds from offset \<open>off\<close> on, big-endian.\<close>

fun ssrcs_at :: "u8 list \<Rightarrow> nat \<Rightarrow> nat \<Rightarrow> u32 list" where
  "ssrcs_at data off 0 = []"
| "ssrcs_at data off (Suc n) =
     be32 (data ! off) (data ! (off + 1)) (data ! (off + 2)) (data ! (off + 3))
     # ssrcs_at data (off + 4) n"

section \<open>UnixStreamSocket\<close>

text \<open>
  The error codes of libuv that the code names (\<open>uv-errno.h\<close>, the values on Linux). They
  are negative and pairwise distinct.
\<close>

definition UV_EOF :: int where "UV_EOF = - 4095"
definition UV_EAGAIN :: int where "UV_EAGAIN = - 11"
definition UV_EPIPE :: int where "UV_EPIPE = - 32"
definition UV_ENOSYS :: int where "UV_ENOSYS = - 38"
definition UV_ECONNRESET :: int where "UV_ECONNRESET = - 104"
definition UV_ENOTCONN :: int where "UV_ENOTCONN = - 107"
definition UV_ECANCELED :: int where "UV_ECANCELED = - 125"

text \<open>
  What the code can see of libuv's pipe handle: whether the handle is reading (from
  \<open>uv_read_start\<close> to \<open>uv_read_stop\<close>), whether a shutdown request or a close is under way
  (from \<open>uv_shutdown\<close> or \<open>uv_close\<close> until libuv calls back), and the byte ranges handed
  over for writing, in order.
\<close>

record uv_pipe_t =
  reading :: bool
  shutdown_req :: bool
  closing :: bool
  written :: "u8 list list"

text \<open>
  The socket. Besides the fields of the class, the calls of the two pure virtual methods of
  the subclass are recorded (\<open>userOnUnixStreamRead\<close> is counted, the arguments of
  \<open>userOnUnixStreamSocketClosed\<close> are listed), and \<open>deleted\<close> is set by \<open>delete this\<close>.
\<close>

record UnixStreamSocket =
  uvHandle :: uv_pipe_t
  bufferSize :: nat
  buffer :: "u8 list option"
  bufferDataLen :: nat
  isClosing :: bool
  isClosedByPeer :: bool
  hasError :: bool
  userReads :: nat
  userClosed :: "bool list"
  deleted :: bool

text \<open>
  The values that the calls into libuv return, which the code tests: they are given from
  outside for each call of a method.
\<close>

record uv_env =
  uv_read_stop_r :: int
  uv_shutdown_r :: int
  uv_try_write_r :: int
  uv_write_r :: int

text \<open>
  Modelled from the spec: \<open>handles/UnixStreamSocket.h\<close> with the initial values of the
  fields is missing. The socket after the constructor has returned without throwing: the
  handle is reading, the buffer is not allocated (the constructor's note says so), no data,
  no flag set.
\<close>

definition UnixStreamSocket_new :: "nat \<Rightarrow> UnixStreamSocket" where
  "UnixStreamSocket_new bufferSize0 =
     \<lparr> uvHandle = \<lparr> reading = True, shutdown_req = False, closing = False, written = [] \<rparr>,
       bufferSize = bufferSize0, buffer = None, bufferDataLen = 0,
       isClosing = False, isClosedByPeer = False, hasError = False,
       userReads = 0, userClosed = [], deleted = False \<rparr>"

text \<open>The three calls into libuv that change the handle.\<close>

definition uv_read_stop :: "UnixStreamSocket \<Rightarrow> UnixStreamSocket" where
  "uv_read_stop s = s\<lparr> uvHandle := (uvHandle s)\<lparr> reading := False \<rparr> \<rparr>"

definition uv_shutdown :: "UnixStreamSocket \<Rightarrow> UnixStreamSocket" where
  "uv_shutdown s = s\<lparr> uvHandle := (uvHandle s)\<lparr> shutdown_req := True \<rparr> \<rparr>"

definition uv_close :: "UnixStreamSocket \<Rightarrow> UnixStreamSocket" where
  "uv_close s = s\<lparr> uvHandle := (uvHandle s)\<lparr> closing := True \<rparr> \<rparr>"

definition uv_hand_over :: "u8 list \<Rightarrow> UnixStreamSocket \<Rightarrow> UnixStreamSocket" where
  "uv_hand_over bytes s = s\<lparr> uvHandle := (uvHandle s)\<lparr> written := written (uvHandle s) @ [bytes] \<rparr> \<rparr>"

text \<open>\<open>UnixStreamSocket::Close\<close>. \<open>MS_ABORT\<close> is the fault \<open>Aborted\<close>.\<close>

definition Close :: "uv_env \<Rightarrow> UnixStreamSocket \<Rightarrow> fault + UnixStreamSocket" where
  "Close env s =
     (if isClosing s then Inr s
      else
        let s1 = uv_read_stop (s\<lparr> isClosing := True \<rparr>) in
        if uv_read_stop_r env \<noteq> 0 then Inl Aborted
        else if \<not> hasError s1 \<and> \<not> isClosedByPeer s1 then
          let s2 = uv_shutdown s1 in
          if uv_shutdown_r env \<noteq> 0 then Inl Aborted else Inr s2
        else Inr (uv_close s1))"

text \<open>The cast \<open>(int)len\<close> of a \<open>size_t\<close>.\<close>

definition int_of_size_t :: "nat \<Rightarrow> int" where
  "int_of_size_t n = sint (word_of_nat n :: 32 word)"

text \<open>
  The end of \<open>UnixStreamSocket::Write\<close> (lines 268 to 281) for a given value of
  \<open>written\<close>: the bytes not yet taken are copied and given to \<open>uv_write\<close>. What
  \<open>uv_try_write\<close> has taken and what is given to \<open>uv_write\<close> is handed over to the handle.
\<close>

definition Write_pending ::
  "uv_env \<Rightarrow> UnixStreamSocket \<Rightarrow> u8 list \<Rightarrow> nat \<Rightarrow> fault + UnixStreamSocket" where
  "Write_pending env s data written0 =
     (let len = length data in
      if written0 > len then Inl OutOfBounds
      else
        let pending_len = len - written0;
            s1 = (if written0 > 0 then uv_hand_over (take written0 data) s else s);
            s2 = uv_hand_over (take pending_len (drop written0 data)) s1
        in if uv_write_r env \<noteq> 0 then Inl Aborted else Inr s2)"

text \<open>
  \<open>UnixStreamSocket::Write\<close>. \<open>uv_try_write\<close> returns the number of bytes it has taken, or
  an error.
\<close>

definition Write :: "uv_env \<Rightarrow> UnixStreamSocket \<Rightarrow> u8 list \<Rightarrow> fault + UnixStreamSocket" where
  "Write env s data =
     (if isClosing s then Inr s
      else if length data = 0 then Inr s
      else
        let len = length data;
            res = uv_try_write_r env
        in
        if res = int_of_size_t len then Inr (uv_hand_over data s)
        else if res = UV_EAGAIN \<or> res = UV_ENOSYS then Write_pending env s data 0
        else if res < 0 then Close env s
        else Write_pending env s data (nat res))"

text \<open>
  \<open>UnixStreamSocket::onUvReadAlloc\<close>: the socket afterwards, and the \<open>base\<close> (as an offset
  into the buffer) and \<open>len\<close> stored into \<open>buf\<close>.
\<close>

definition onUvReadAlloc ::
  "(nat \<Rightarrow> u8) \<Rightarrow> UnixStreamSocket \<Rightarrow> nat \<Rightarrow> UnixStreamSocket \<times> nat \<times> nat" where
  "onUvReadAlloc junk s suggested_size =
     (let s1 = (if buffer s = None then s\<lparr> buffer := Some (new_array junk (bufferSize s)) \<rparr>
                else s);
          base = bufferDataLen s1
      in
      if bufferSize s1 > bufferDataLen s1
      then (s1, base, bufferSize s1 - bufferDataLen s1)
      else (s1, base, 0))"

text \<open>\<open>UnixStreamSocket::onUvRead\<close>; \<open>nread\<close> bytes are in the buffer already.\<close>

definition onUvRead :: "uv_env \<Rightarrow> UnixStreamSocket \<Rightarrow> int \<Rightarrow> fault + UnixStreamSocket" where
  "onUvRead env s nread =
     (if nread = 0 then Inr s
      else if nread > 0
      then Inr (s\<lparr> bufferDataLen := bufferDataLen s + nat nread, userReads := userReads s + 1 \<rparr>)
      else if nread = UV_EOF \<or> nread = UV_ECONNRESET
      then Close env (s\<lparr> isClosedByPeer := True \<rparr>)
      else Close env (s\<lparr> hasError := True \<rparr>))"

text \<open>\<open>UnixStreamSocket::onUvWriteError\<close>.\<close>

definition onUvWriteError :: "uv_env \<Rightarrow> UnixStreamSocket \<Rightarrow> int \<Rightarrow> fault + UnixStreamSocket" where
  "onUvWriteError env s error =
     (if isClosing s then Inr s
      else if error = UV_EPIPE \<or> error = UV_ENOTCONN then Close env s
      else Close env (s\<lparr> hasError := True \<rparr>))"

text \<open>The static \<open>on_write\<close>: the socket is told of a failed write only.\<close>

definition on_write :: "uv_env \<Rightarrow> UnixStreamSocket \<Rightarrow> int \<Rightarrow> fault + UnixStreamSocket" where
  "on_write env s status = (if status \<noteq> 0 then onUvWriteError env s status else Inr s)"

text \<open>
  \<open>UnixStreamSocket::onUvShutdown\<close>: whatever the status, the handle is closed. The
  shutdown request has been answered.
\<close>

definition onUvShutdown :: "UnixStreamSocket \<Rightarrow> int \<Rightarrow> UnixStreamSocket" where
  "onUvShutdown s status = uv_close (s\<lparr> uvHandle := (uvHandle s)\<lparr> shutdown_req := False \<rparr> \<rparr>)"

text \<open>
  \<open>UnixStreamSocket::onUvClosed\<close>: the subclass is notified with \<open>isClosedByPeer\<close>, and
  the socket deletes itself. The close has been answered.
\<close>

definition onUvClosed :: "UnixStreamSocket \<Rightarrow> UnixStreamSocket" where
  "onUvClosed s =
     s\<lparr> uvHandle := (uvHandle s)\<lparr> closing := False \<rparr>,
        userClosed := userClosed s @ [isClosedByPeer s],
        deleted := True \<rparr>"

subsection \<open>The life of a socket\<close>

text \<open>
  What can happen to a socket: its owner calls \<open>Close\<close> or \<open>Write\<close>, or libuv calls back
  (\<open>on_read\<close>, \<open>on_write\<close>, \<open>on_shutdown\<close>, \<open>on_close\<close>). Each comes with the values that
  the calls into libuv return meanwhile.
\<close>

datatype event =
    CallClose
  | CallWrite "u8 list"
  | OnRead int
  | OnWrite int
  | OnShutdown int
  | OnClose

text \<open>
  libuv's side of the contract: it calls \<open>on_read\<close> only while the handle is reading,
  \<open>on_shutdown\<close> only for a shutdown request, once, \<open>on_close\<close> only for a \<open>uv_close\<close>,
  once, and nothing for a handle whose \<open>on_close\<close> has run. An event that cannot happen in
  a state leaves it as it is. A call by the owner on a deleted socket is a fault.
\<close>

definition step :: "uv_env \<times> event \<Rightarrow> UnixStreamSocket \<Rightarrow> fault + UnixStreamSocket" where
  "step ee s =
     (case snd ee of
        CallClose \<Rightarrow> if deleted s then Inl UseAfterFree else Close (fst ee) s
      | CallWrite data \<Rightarrow> if deleted s then Inl UseAfterFree else Write (fst ee) s data
      | OnRead nread \<Rightarrow>
          if \<not> deleted s \<and> reading (uvHandle s) then onUvRead (fst ee) s nread else Inr s
      | OnWrite status \<Rightarrow> if \<not> deleted s then on_write (fst ee) s status else Inr s
      | OnShutdown status \<Rightarrow>
          if \<not> deleted s \<and> shutdown_req (uvHandle s) then Inr (onUvShutdown s status) else Inr s
      | OnClose \<Rightarrow>
          if \<not> deleted s \<and> closing (uvHandle s) then Inr (onUvClosed s) else Inr s)"

fun run :: "(uv_env \<times> event) list \<Rightarrow> UnixStreamSocket \<Rightarrow> fault + UnixStreamSocket" where
  "run [] s = Inr s"
| "run (ee # rest) s = (case step ee s of Inl e \<Rightarrow> Inl e | Inr s' \<Rightarrow> run rest s')"

text \<open>The event loop goes on until nothing is left to call back: the answer to a shutdown
  request, then the answer to a close.\<close>

definition drain :: "UnixStreamSocket \<Rightarrow> UnixStreamSocket" where
  "drain s =
     (let s1 = (if \<not> deleted s \<and> shutdown_req (uvHandle s) then onUvShutdown s 0 else s)
      in if \<not> deleted s1 \<and> closing (uvHandle s1) then onUvClosed s1 else s1)"

text \<open>
  An event starts the closing of an open socket when it is a call of \<open>Close\<close>, a disconnect
  of the peer or a read error (\<open>on_read\<close> with a negative value), a failed write
  (\<open>on_write\<close> with a status other than 0), or a call of \<open>Write\<close> with data for which
  \<open>uv_try_write\<close> fails with an error other than \<open>UV_EAGAIN\<close> and \<open>UV_ENOSYS\<close>.
\<close>

definition starts_closing :: "uv_env \<times> event \<Rightarrow> bool" where
  "starts_closing ee =
     (case snd ee of
        CallClose \<Rightarrow> True
      | CallWrite data \<Rightarrow>
          data \<noteq> [] \<and> uv_try_write_r (fst ee) \<noteq> int_of_size_t (length data)
          \<and> uv_try_write_r (fst ee) \<noteq> UV_EAGAIN \<and> uv_try_write_r (fst ee) \<noteq> UV_ENOSYS
          \<and> uv_try_write_r (fst ee) < 0
      | OnRead nread \<Rightarrow> nread < 0
      | OnWrite status \<Rightarrow> status \<noteq> 0
      | OnShutdown status \<Rightarrow> False
      | OnClose \<Rightarrow> False)"

text \<open>
  The one event at which the code sets \<open>isClosedByPeer\<close>: \<open>on_read\<close> with \<open>UV_EOF\<close> or
  \<open>UV_ECONNRESET\<close>. The closing is started by such a read when the first event that
  starts it is one.
\<close>

definition read_disconnect :: "uv_env \<times> event \<Rightarrow> bool" where
  "read_disconnect ee =
     (case snd ee of OnRead nread \<Rightarrow> nread = UV_EOF \<or> nread = UV_ECONNRESET | _ \<Rightarrow> False)"

fun read_disconnect_first :: "(uv_env \<times> event) list \<Rightarrow> bool" where
  "read_disconnect_first [] = False"
| "read_disconnect_first (ee # rest) =
     (if starts_closing ee then read_disconnect ee else read_disconnect_first rest)"

text \<open>
  The words of the spec, ``the peer closed its side of the pipe first'': the first event that
  starts the closing is one through which the socket learns that the other end of the pipe
  is gone. That is a read that ends with \<open>UV_EOF\<close> or \<open>UV_ECONNRESET\<close>, and as well a
  write that fails with \<open>UV_EPIPE\<close> or \<open>UV_ENOTCONN\<close>, be it reported by \<open>on_write\<close> or by
  \<open>uv_try_write\<close>.
\<close>

definition peer_close_sign :: "uv_env \<times> event \<Rightarrow> bool" where
  "peer_close_sign ee =
     (case snd ee of
        OnRead nread \<Rightarrow> nread = UV_EOF \<or> nread = UV_ECONNRESET
      | OnWrite status \<Rightarrow> status = UV_EPIPE \<or> status = UV_ENOTCONN
      | CallWrite data \<Rightarrow>
          data \<noteq> [] \<and> (uv_try_write_r (fst ee) = UV_EPIPE \<or> uv_try_write_r (fst ee) = UV_ENOTCONN)
      | _ \<Rightarrow> False)"

fun peer_closed_pipe_first :: "(uv_env \<times> event) list \<Rightarrow> bool" where
  "peer_closed_pipe_first [] = False"
| "peer_closed_pipe_first (ee # rest) =
     (if starts_closing ee then peer_close_sign ee else peer_closed_pipe_first rest)"

text \<open>
  The arguments with which \<open>userOnUnixStreamSocketClosed\<close> has been called when a new
  socket has seen the events and the event loop has delivered what was pending; \<open>None\<close> when
  the events end in a fault.
\<close>

definition closed_callbacks :: "(uv_env \<times> event) list \<Rightarrow> nat \<Rightarrow> bool list option" where
  "closed_callbacks evs bufferSize0 =
     (case run evs (UnixStreamSocket_new bufferSize0) of
        Inl e \<Rightarrow> None
      | Inr s \<Rightarrow> Some (userClosed (drain s)))"

subsection \<open>States of a socket\<close>

text \<open>
  An open socket: \<open>Close\<close> has not begun, the handle reads, nothing is pending, the
  subclass has not been told of a close.
\<close>

definition sock_open :: "UnixStreamSocket \<Rightarrow> bool" where
  "sock_open s =
     (\<not> isClosing s \<and> \<not> deleted s \<and> reading (uvHandle s) \<and> \<not> shutdown_req (uvHandle s)
      \<and> \<not> closing (uvHandle s) \<and> userClosed s = [])"

text \<open>
  A closing socket: \<open>Close\<close> has begun and the handle reads no more; either exactly one of
  the shutdown request and the close is pending and the subclass has not been told, or the
  socket is deleted, nothing is pending and the subclass has been told once, with
  \<open>isClosedByPeer\<close>.
\<close>

definition sock_closing :: "UnixStreamSocket \<Rightarrow> bool" where
  "sock_closing s =
     (isClosing s \<and> \<not> reading (uvHandle s)
      \<and> (if deleted s
          then \<not> shutdown_req (uvHandle s) \<and> \<not> closing (uvHandle s)
               \<and> userClosed s = [isClosedByPeer s]
          else shutdown_req (uvHandle s) \<noteq> closing (uvHandle s) \<and> userClosed s = []))"

text \<open>An allocated receive buffer has \<open>bufferSize\<close> bytes.\<close>

definition buffer_ok :: "UnixStreamSocket \<Rightarrow> bool" where
  "buffer_ok s = (case buffer s of None \<Rightarrow> True | Some b \<Rightarrow> length b = bufferSize s)"

text \<open>An environment in which every call into libuv returns 0.\<close>

definition env0 :: uv_env where
  "env0 = \<lparr> uv_read_stop_r = 0, uv_shutdown_r = 0, uv_try_write_r = 0, uv_write_r = 0 \<rparr>"

section \<open>Room\<close>

text \<open>
  Modelled from the spec: \<open>Room.cpp\<close> and \<open>Peer.cpp\<close> are missing; \<open>Room.h\<close> declares the
  three maps and the listener callbacks. The operations follow the spec's section on the room
  routing engine. Peers, receivers and senders are named by numbers (a peer by its
  \<open>peerId\<close>, a receiver and a sender by the address of the object). An unordered set that
  the spec iterates over is a list without repetition, an unordered map that it iterates over
  is an association list.
\<close>

record Peer =
  rtpReceivers :: "nat list"
  rtpSenders :: "nat list"

record Room =
  peers :: "(nat \<times> Peer) list"
  mapRtpReceiverRtpSenders :: "nat \<rightharpoonup> nat list"
  mapRtpSenderRtpReceiver :: "nat \<rightharpoonup> nat"

text \<open>Modelled from the spec: a new room has no peers, and both routing maps are empty.\<close>

definition Room_new :: Room where
  "Room_new = \<lparr> peers = [], mapRtpReceiverRtpSenders = Map.empty,
                mapRtpSenderRtpReceiver = Map.empty \<rparr>"

text \<open>Modelled from the spec: inserting into and erasing from an unordered set.\<close>

definition set_insert :: "nat \<Rightarrow> nat list \<Rightarrow> nat list" where
  "set_insert x xs = (if x \<in> set xs then xs else xs @ [x])"

definition set_erase :: "nat \<Rightarrow> nat list \<Rightarrow> nat list" where
  "set_erase x xs = removeAll x xs"

text \<open>Modelled from the spec: a peer of the room changes its own collections.\<close>

definition update_peer :: "nat \<Rightarrow> (Peer \<Rightarrow> Peer) \<Rightarrow> Room \<Rightarrow> Room" where
  "update_peer pid f R =
     R\<lparr> peers := map (\<lambda>(q, P). if q = pid then (q, f P) else (q, P)) (peers R) \<rparr>"

definition update_peers :: "(Peer \<Rightarrow> Peer) \<Rightarrow> Room \<Rightarrow> Room" where
  "update_peers f R = R\<lparr> peers := map (\<lambda>(q, P). (q, f P)) (peers R) \<rparr>"

text \<open>
  Modelled from the spec: peer join. ``\<open>AddPeer(peerId)\<close>: fails if the id already exists;
  otherwise constructs the peer, stores it.''
\<close>

definition AddPeer :: "nat \<Rightarrow> Room \<Rightarrow> Room" where
  "AddPeer pid R =
     (if pid \<in> fst ` set (peers R) then R
      else R\<lparr> peers := peers R @ [(pid, \<lparr> rtpReceivers = [], rtpSenders = [] \<rparr>)] \<rparr>)"

text \<open>
  Modelled from the spec: one step of ``receiver added''. The peer \<open>q\<close> produces the sender
  \<open>s\<close> that mirrors the receiver \<open>r\<close>; the room inserts ``the new sender into the
  sender\<open>\<rightarrow>\<close>receiver map and into the receiver's set''.
\<close>

definition add_sender :: "nat \<Rightarrow> nat \<Rightarrow> nat \<Rightarrow> Room \<Rightarrow> Room" where
  "add_sender r q s R =
     (update_peer q (\<lambda>P. P\<lparr> rtpSenders := set_insert s (rtpSenders P) \<rparr>) R)
       \<lparr> mapRtpSenderRtpReceiver := (mapRtpSenderRtpReceiver R)(s \<mapsto> r),
         mapRtpReceiverRtpSenders :=
           (mapRtpReceiverRtpSenders R)
             (r \<mapsto> set_insert s (case mapRtpReceiverRtpSenders R r of None \<Rightarrow> [] | Some S \<Rightarrow> S)) \<rparr>"

text \<open>
  Modelled from the spec: receiver added (\<open>onPeerRtpReceiverParameters\<close>). ``For each other
  peer in the room, ask it to produce a sender mirroring this receiver using a freshly
  allocated senderId.'' The allocator is \<open>new_id\<close>: the sender it hands out for each peer.
  The receiver belongs to the peer \<open>pid\<close>, and has an entry from now on.
\<close>

definition onPeerRtpReceiverParameters :: "nat \<Rightarrow> nat \<Rightarrow> (nat \<Rightarrow> nat) \<Rightarrow> Room \<Rightarrow> Room" where
  "onPeerRtpReceiverParameters pid r new_id R =
     (if pid \<notin> fst ` set (peers R) then R
      else
        let R1 = update_peer pid (\<lambda>P. P\<lparr> rtpReceivers := set_insert r (rtpReceivers P) \<rparr>) R;
            R2 = R1\<lparr> mapRtpReceiverRtpSenders :=
                       (mapRtpReceiverRtpSenders R1)
                         (r \<mapsto> (case mapRtpReceiverRtpSenders R1 r of None \<Rightarrow> [] | Some S \<Rightarrow> S)) \<rparr>
        in fold (\<lambda>q. add_sender r q (new_id q)) (filter (\<lambda>q. q \<noteq> pid) (map fst (peers R))) R2)"

text \<open>
  Modelled from the spec: sender closed. ``Remove the sender from its receiver's set and from
  sender\<open>\<rightarrow>\<close>receiver. Idempotent [\<dots>] the map update must tolerate already absent.'' The
  owning peer forgets the sender.
\<close>

definition onPeerRtpSenderClosed :: "nat \<Rightarrow> Room \<Rightarrow> Room" where
  "onPeerRtpSenderClosed s R =
     (update_peers (\<lambda>P. P\<lparr> rtpSenders := set_erase s (rtpSenders P) \<rparr>) R)
       \<lparr> mapRtpReceiverRtpSenders :=
           (case mapRtpSenderRtpReceiver R s of
              None \<Rightarrow> mapRtpReceiverRtpSenders R
            | Some r \<Rightarrow>
                (case mapRtpReceiverRtpSenders R r of
                   None \<Rightarrow> mapRtpReceiverRtpSenders R
                 | Some S \<Rightarrow> (mapRtpReceiverRtpSenders R)(r \<mapsto> set_erase s S))),
         mapRtpSenderRtpReceiver := (mapRtpSenderRtpReceiver R)(s := None) \<rparr>"

text \<open>
  Modelled from the spec: receiver closed. ``Look up its set of senders. For each, close it
  (which triggers sender-closed bookkeeping on its owning peer and removes it from
  sender\<open>\<rightarrow>\<close>receiver). Remove the receiver's entry from receiver\<open>\<rightarrow>\<close>senders.'' The owning
  peer forgets the receiver.
\<close>

definition onPeerRtpReceiverClosed :: "nat \<Rightarrow> Room \<Rightarrow> Room" where
  "onPeerRtpReceiverClosed r R =
     (let senders = (case mapRtpReceiverRtpSenders R r of None \<Rightarrow> [] | Some S \<Rightarrow> S);
          R1 = fold onPeerRtpSenderClosed senders R;
          R2 = update_peers (\<lambda>P. P\<lparr> rtpReceivers := set_erase r (rtpReceivers P) \<rparr>) R1
      in R2\<lparr> mapRtpReceiverRtpSenders := (mapRtpReceiverRtpSenders R2)(r := None) \<rparr>)"

text \<open>
  Modelled from the spec: peer closed. ``Close the peer's receivers and senders (as above),
  then remove the peer from the room.''
\<close>

definition onPeerClosed :: "nat \<Rightarrow> Room \<Rightarrow> Room" where
  "onPeerClosed pid R =
     (case map_of (peers R) pid of
        None \<Rightarrow> R
      | Some P \<Rightarrow>
          let R1 = fold onPeerRtpReceiverClosed (rtpReceivers P) R;
              R2 = fold onPeerRtpSenderClosed (rtpSenders P) R1
          in R2\<lparr> peers := filter (\<lambda>(q, P'). q \<noteq> pid) (peers R2) \<rparr>)"

text \<open>
  The states of a room: a new room, and what the operations make of a state. A sender
  that the allocator hands out is fresh: the room does not know it.
\<close>

inductive reachable :: "Room \<Rightarrow> bool" where
  new: "reachable Room_new"
| peer_added: "reachable R \<Longrightarrow> reachable (AddPeer pid R)"
| receiver_added:
    "reachable R \<Longrightarrow> \<forall>q \<in> fst ` set (peers R). new_id q \<notin> dom (mapRtpSenderRtpReceiver R) \<Longrightarrow>
       reachable (onPeerRtpReceiverParameters pid r new_id R)"
| receiver_closed: "reachable R \<Longrightarrow> reachable (onPeerRtpReceiverClosed r R)"
| sender_closed: "reachable R \<Longrightarrow> reachable (onPeerRtpSenderClosed s R)"
| peer_closed: "reachable R \<Longrightarrow> reachable (onPeerClosed pid R)"

text \<open>
  The routing maps are routing_symmetric: a sender in the set of a receiver maps back to that
  receiver, and a sender that maps to a receiver is in that receiver's set.
\<close>

definition routing_symmetric :: "Room \<Rightarrow> bool" where
  "routing_symmetric R =
     ((\<forall>r S s. mapRtpReceiverRtpSenders R r = Some S \<longrightarrow> s \<in> set S \<longrightarrow>
                 mapRtpSenderRtpReceiver R s = Some r)
      \<and> (\<forall>s r. mapRtpSenderRtpReceiver R s = Some r \<longrightarrow>
                 (\<exists>S. mapRtpReceiverRtpSenders R r = Some S \<and> s \<in> set S)))"

section \<open>Verification: RtpPacket\<close>

subsection \<open>What \<open>Parse\<close> returns\<close>

lemma Parse_headers_SomeD:
  assumes "Parse_headers data = Some (pos, csz, ext, evs)"
  shows "IsRtp data" and "csz = 4 * csrc_count data 0" and "pos \<le> length data"
    and "extension data 0 \<Longrightarrow> ext = Some (sizeof_Header + csz) \<and>
           evs = 4 * ntohs_length data (sizeof_Header + csz) \<and> pos = sizeof_Header + csz + 4 + evs"
    and "\<not> extension data 0 \<Longrightarrow> ext = None \<and> evs = 0 \<and> pos = sizeof_Header + csz"
  using assms by (auto simp: Parse_headers_def IsRtp_def Let_def split: if_splits)

lemma Parse_headers_Some_iff:
  "(\<exists>t. Parse_headers data = Some t) \<longleftrightarrow>
     IsRtp data
     \<and> sizeof_Header + 4 * csrc_count data 0 \<le> length data
     \<and> (extension data 0 \<longrightarrow>
          sizeof_Header + 4 * csrc_count data 0 + 4
            + 4 * ntohs_length data (sizeof_Header + 4 * csrc_count data 0) \<le> length data)"
  by (auto simp: Parse_headers_def IsRtp_def Let_def mult.commute)

lemma Parse_headers_None: "Parse_headers data = None \<Longrightarrow> Parse data = Inr None"
  by (simp add: Parse_def)

lemma Parse_headers_pos:
  assumes "Parse_headers data = Some (pos, csz, ext, evs)"
  shows "pos = sizeof_Header + csz + (case ext of Some e \<Rightarrow> 4 + evs | None \<Rightarrow> 0)"
  using assms by (auto simp: Parse_headers_def Let_def split: if_splits)

lemma Parse_finish_ok:
  assumes "Parse_headers data = Some (pos, csz, ext, evs)" and "length data = pos + plLen + unat plPad"
  shows "Parse_finish data pos csz ext evs plLen plPad =
           Inr (Some (RtpPacket_new 0 ext (if plLen = 0 then None else Some pos) plLen plPad data (length data)))"
  using assms(2) Parse_headers_pos [OF assms(1)] by (simp add: Parse_finish_def Let_def)

lemma Parse_cases:
  assumes "Parse_headers data = Some (pos, csz, ext, evs)"
  shows "Parse data =
     (if padding data 0 then
        if length data - pos = 0 \<or> data ! (length data - 1) = 0 \<or> length data - pos < unat (data ! (length data - 1))
        then Inr None
        else Inr (Some (RtpPacket_new 0 ext
               (if length data - pos - unat (data ! (length data - 1)) = 0 then None else Some pos)
               (length data - pos - unat (data ! (length data - 1))) (data ! (length data - 1)) data (length data)))
      else Inr (Some (RtpPacket_new 0 ext (if length data - pos = 0 then None else Some pos)
               (length data - pos) 0 data (length data))))"
proof -
  have le: "pos \<le> length data" using Parse_headers_SomeD(3) [OF assms] .
  show ?thesis
    using le by (simp add: Parse_def assms Let_def Parse_finish_ok [OF assms])
qed

lemma Parse_Some_fields:
  assumes h: "Parse_headers data = Some (pos, csz, ext, evs)" and p: "Parse data = Inr (Some p)"
  shows "payloadLength p + unat (payloadPadding p) = length data - pos"
proof (cases "padding data 0")
  case False
  with p have "p = RtpPacket_new 0 ext (if length data - pos = 0 then None else Some pos)
               (length data - pos) 0 data (length data)"
    by (simp add: Parse_cases [OF h])
  then show ?thesis by (simp add: RtpPacket_new_def)
next
  case True
  let ?b = "data ! (length data - 1)"
  have rej: "\<not> (length data - pos = 0 \<or> ?b = 0 \<or> length data - pos < unat ?b)"
  proof
    assume "length data - pos = 0 \<or> ?b = 0 \<or> length data - pos < unat ?b"
    then have "Parse data = Inr None" using True by (simp only: Parse_cases [OF h] if_True)
    with p show False by simp
  qed
  then have "Parse data = Inr (Some (RtpPacket_new 0 ext
               (if length data - pos - unat ?b = 0 then None else Some pos)
               (length data - pos - unat ?b) ?b data (length data)))"
    using True by (simp only: Parse_cases [OF h] if_True if_False)
  with p have "p = RtpPacket_new 0 ext
               (if length data - pos - unat ?b = 0 then None else Some pos)
               (length data - pos - unat ?b) ?b data (length data)"
    by simp
  then have f: "payloadLength p = length data - pos - unat ?b" "payloadPadding p = ?b"
    by (simp_all add: RtpPacket_new_def)
  from rej have "unat ?b \<le> length data - pos" by (simp only: de_Morgan_disj not_less)
  then have "length data - pos - unat ?b + unat ?b = length data - pos" by (rule le_add_diff_inverse2)
  then show ?thesis by (simp only: f)
qed

lemmas rtp_eval = Parse_def Parse_headers_def IsRtp_def sizeof_Header_def csrc_count_def
  extension_def padding_def Parse_finish_def RtpPacket_new_def ntohs_length_def Let_def

text \<open>
  C8: for every buffer that \<open>RtpPacket::Parse\<close> accepts, the 12-byte header, four bytes per
  announced CSRC, the extension (four bytes and its value, when the extension flag is set),
  the payload length and the padding length add up to the length of the buffer; and no input
  makes \<open>Parse\<close> leave through a failed \<open>MS_ASSERT\<close> (or any other fault).
\<close>

theorem Parse_accounting:
  "Parse data \<noteq> Inl e \<and>
   (Parse data = Inr (Some p) \<longrightarrow>
      sizeof_Header + 4 * csrc_count data 0
      + (if extension data 0
         then 4 + 4 * ntohs_length data (sizeof_Header + 4 * csrc_count data 0) else 0)
      + payloadLength p + unat (payloadPadding p) = length data)"
proof (cases "Parse_headers data")
  case None
  then show ?thesis by (simp add: Parse_def)
next
  case (Some t)
  then obtain pos csz ext evs where h: "Parse_headers data = Some (pos, csz, ext, evs)"
    by (cases t) auto
  note d = Parse_headers_SomeD [OF h]
  have noabort: "Parse data \<noteq> Inl e"
    by (simp add: Parse_cases [OF h])
  have acc: "sizeof_Header + 4 * csrc_count data 0
      + (if extension data 0
         then 4 + 4 * ntohs_length data (sizeof_Header + 4 * csrc_count data 0) else 0)
      + payloadLength p + unat (payloadPadding p) = length data"
    if p: "Parse data = Inr (Some p)"
  proof -
    have pos: "pos = sizeof_Header + 4 * csrc_count data 0
      + (if extension data 0
         then 4 + 4 * ntohs_length data (sizeof_Header + 4 * csrc_count data 0) else 0)"
      using d(2) d(4) d(5) by (cases "extension data 0") simp_all
    have "pos + (payloadLength p + unat (payloadPadding p)) = length data"
      using Parse_Some_fields [OF h p] d(3) by (simp only: le_add_diff_inverse)
    then show ?thesis by (simp only: pos add.assoc)
  qed
  from noabort acc show ?thesis by blast
qed

theorem Parse_accounting_witness:
  "Parse [0xB1, 0x60, 0, 1, 0, 0, 0, 0x64, 0x12, 0x34, 0x56, 0x78, 1, 2, 3, 4,
          0xBE, 0xDE, 0, 1, 9, 9, 9, 9, 0xDE, 0xAD, 0x07, 0x02]
     = Inr (Some (RtpPacket_new 0 (Some 16) (Some 24) 2 2
         [0xB1, 0x60, 0, 1, 0, 0, 0, 0x64, 0x12, 0x34, 0x56, 0x78, 1, 2, 3, 4,
          0xBE, 0xDE, 0, 1, 9, 9, 9, 9, 0xDE, 0xAD, 0x07, 0x02] 28))
   \<and> sizeof_Header + 4 * 1 + (4 + 4 * 1) + 2 + 2 = (28 :: nat)"
proof -
  let ?d = "[0xB1, 0x60, 0, 1, 0, 0, 0, 0x64, 0x12, 0x34, 0x56, 0x78, 1, 2, 3, 4,
          0xBE, 0xDE, 0, 1, 9, 9, 9, 9, 0xDE, 0xAD, 0x07, 0x02] :: u8 list"
  let ?p = "RtpPacket_new 0 (Some 16) (Some 24) 2 2 ?d 28"
  have e: "Parse ?d = Inr (Some ?p)" by (simp add: rtp_eval)
  from Parse_accounting [of ?d Aborted ?p] e show ?thesis
    by (simp add: sizeof_Header_def)
qed

text \<open>What the padding block of \<open>Parse\<close> does at the offset that the first part has reached.\<close>

lemma Parse_padding_at:
  assumes "Parse_headers data = Some (pos, csz, ext, evs)" and "padding data 0"
  shows "(Parse data = Inr None) =
           (length data - pos = 0 \<or> data ! (length data - 1) = 0
            \<or> length data - pos < unat (data ! (length data - 1)))
         \<and> (Parse data \<noteq> Inr None \<longrightarrow>
              (\<exists>p. Parse data = Inr (Some p)
                 \<and> payloadLength p = length data - pos - unat (data ! (length data - 1))))"
proof (cases "length data - pos = 0 \<or> data ! (length data - 1) = 0
            \<or> length data - pos < unat (data ! (length data - 1))")
  case True
  then have "Parse data = Inr None"
    using assms(2) by (simp only: Parse_cases [OF assms(1)] if_True)
  with True show ?thesis by simp
next
  case False
  let ?b = "data ! (length data - 1)"
  let ?p = "RtpPacket_new 0 ext
               (if length data - pos - unat ?b = 0 then None else Some pos)
               (length data - pos - unat ?b) ?b data (length data)"
  from False have eq: "Parse data = Inr (Some ?p)"
    using assms(2) by (simp only: Parse_cases [OF assms(1)] if_True if_False)
  have "payloadLength ?p = length data - pos - unat ?b"
    by (simp add: RtpPacket_new_def)
  with eq have "\<exists>p. Parse data = Inr (Some p)
                 \<and> payloadLength p = length data - pos - unat ?b"
    by blast
  moreover from eq have "Parse data \<noteq> Inr None" by simp
  ultimately show ?thesis using False by blast
qed

lemma Parse_headers_region:
  assumes "Parse_headers data = Some (pos, csz, ext, evs)"
  shows "length data - pos = region_size data"
proof -
  note d = Parse_headers_SomeD [OF assms]
  have "pos = sizeof_Header + 4 * csrc_count data 0
      + (if extension data 0
         then 4 + 4 * ntohs_length data (sizeof_Header + 4 * csrc_count data 0) else 0)"
    using d(2) d(4) d(5) by (cases "extension data 0") simp_all
  then show ?thesis by (simp only: region_size_def)
qed

lemma Parse_headers_None_region:
  assumes "IsRtp data" and "Parse_headers data = None"
  shows "region_size data = 0"
proof -
  from assms(2) have "\<not> (\<exists>t. Parse_headers data = Some t)" by simp
  with assms(1) have
    "\<not> (sizeof_Header + 4 * csrc_count data 0 \<le> length data
        \<and> (extension data 0 \<longrightarrow>
             sizeof_Header + 4 * csrc_count data 0 + 4
               + 4 * ntohs_length data (sizeof_Header + 4 * csrc_count data 0) \<le> length data))"
    by (simp only: Parse_headers_Some_iff simp_thms)
  then show ?thesis
    by (cases "extension data 0") (auto simp: region_size_def)
qed

lemma Parse_not_rtp: "\<not> IsRtp data \<Longrightarrow> Parse data = Inr None"
  by (simp add: Parse_def Parse_headers_def Let_def)

text \<open>
  C2: for every buffer with the padding flag set that has an RTP header (at least 12 bytes,
  version 2), \<open>Parse\<close> returns \<open>nullptr\<close> exactly when the region behind header, CSRC list
  and extension is empty, the last byte of the buffer is 0, or the last byte exceeds the size
  of that region; otherwise it returns a packet whose payload length is the size of the
  region minus the last byte. A buffer that has no RTP header is rejected.
\<close>

theorem Parse_padding:
  assumes "padding data 0"
  shows "(IsRtp data \<longrightarrow>
            (Parse data = Inr None) =
              (region_size data = 0 \<or> data ! (length data - 1) = 0
               \<or> region_size data < unat (data ! (length data - 1))))
       \<and> (Parse data \<noteq> Inr None \<longrightarrow>
            (\<exists>p. Parse data = Inr (Some p)
               \<and> payloadLength p = region_size data - unat (data ! (length data - 1))))
       \<and> (\<not> IsRtp data \<longrightarrow> Parse data = Inr None)"
proof (cases "Parse_headers data")
  case None
  then have n: "Parse data = Inr None" by (rule Parse_headers_None)
  have "region_size data = 0" if "IsRtp data"
    using that None by (rule Parse_headers_None_region)
  with n show ?thesis by simp
next
  case (Some t)
  then obtain pos csz ext evs where h: "Parse_headers data = Some (pos, csz, ext, evs)"
    by (cases t) auto
  have rtp: "IsRtp data" by (rule Parse_headers_SomeD(1) [OF h])
  note t = Parse_padding_at [OF h assms, unfolded Parse_headers_region [OF h]]
  from t rtp show ?thesis by blast
qed

theorem Parse_padding_witness:
  "padding [0xB1, 0x60, 0, 1, 0, 0, 0, 0x64, 0x12, 0x34, 0x56, 0x78, 1, 2, 3, 4,
            0xBE, 0xDE, 0, 1, 9, 9, 9, 9, 0xDE, 0xAD, 0x07, 0x02] 0
   \<and> IsRtp [0xB1, 0x60, 0, 1, 0, 0, 0, 0x64, 0x12, 0x34, 0x56, 0x78, 1, 2, 3, 4,
            0xBE, 0xDE, 0, 1, 9, 9, 9, 9, 0xDE, 0xAD, 0x07, 0x02]
   \<and> region_size [0xB1, 0x60, 0, 1, 0, 0, 0, 0x64, 0x12, 0x34, 0x56, 0x78, 1, 2, 3, 4,
            0xBE, 0xDE, 0, 1, 9, 9, 9, 9, 0xDE, 0xAD, 0x07, 0x02] = 4
   \<and> (\<exists>p. Parse [0xB1, 0x60, 0, 1, 0, 0, 0, 0x64, 0x12, 0x34, 0x56, 0x78, 1, 2, 3, 4,
            0xBE, 0xDE, 0, 1, 9, 9, 9, 9, 0xDE, 0xAD, 0x07, 0x02] = Inr (Some p)
          \<and> payloadLength p = 2)
   \<and> padding [0xA1, 0x60, 0, 1, 0, 0, 0, 0x64, 0x12, 0x34, 0x56, 0x78, 9, 9, 9, 1] 0
   \<and> IsRtp [0xA1, 0x60, 0, 1, 0, 0, 0, 0x64, 0x12, 0x34, 0x56, 0x78, 9, 9, 9, 1]
   \<and> region_size [0xA1, 0x60, 0, 1, 0, 0, 0, 0x64, 0x12, 0x34, 0x56, 0x78, 9, 9, 9, 1] = 0
   \<and> Parse [0xA1, 0x60, 0, 1, 0, 0, 0, 0x64, 0x12, 0x34, 0x56, 0x78, 9, 9, 9, 1] = Inr None"
proof -
  let ?d = "[0xB1, 0x60, 0, 1, 0, 0, 0, 0x64, 0x12, 0x34, 0x56, 0x78, 1, 2, 3, 4,
            0xBE, 0xDE, 0, 1, 9, 9, 9, 9, 0xDE, 0xAD, 0x07, 0x02] :: u8 list"
  let ?e = "[0xA1, 0x60, 0, 1, 0, 0, 0, 0x64, 0x12, 0x34, 0x56, 0x78, 9, 9, 9, 1] :: u8 list"
  have fd: "padding ?d 0" and fe: "padding ?e 0" by (simp_all add: padding_def)
  have id: "IsRtp ?d" and ie: "IsRtp ?e" by (simp_all add: IsRtp_def sizeof_Header_def)
  have rd: "region_size ?d = 4"
    by (simp add: region_size_def sizeof_Header_def csrc_count_def extension_def ntohs_length_def)
  have re: "region_size ?e = 0"
    by (simp add: region_size_def sizeof_Header_def csrc_count_def extension_def)
  have ld: "?d ! (length ?d - 1) = 2" by simp
  note td = Parse_padding [OF fd]
  from td id have "Parse ?d \<noteq> Inr None" unfolding rd ld by simp
  with td have "\<exists>p. Parse ?d = Inr (Some p) \<and> payloadLength p = 4 - unat (2 :: u8)"
    unfolding rd ld by blast
  then have ad: "\<exists>p. Parse ?d = Inr (Some p) \<and> payloadLength p = 2" by simp
  note te = Parse_padding [OF fe]
  from te ie have ae: "Parse ?e = Inr None" unfolding re by simp
  from fd id rd ad fe ie re ae show ?thesis by blast
qed

subsection \<open>Serialising a parsed packet\<close>

lemma memcpy_prefix:
  assumes "length r = length data" and "take pos r = take pos data" and "pos + n \<le> length data"
  shows "\<exists>r'. memcpy r pos data pos n = Inr r' \<and> length r' = length data
               \<and> take (pos + n) r' = take (pos + n) data"
proof -
  let ?r = "take pos r @ take n (drop pos data) @ drop (pos + n) r"
  have 1: "memcpy r pos data pos n = Inr ?r"
    using assms(1,3) by (simp add: memcpy_def)
  have 2: "length ?r = length data"
    using assms(1,3) by simp
  have "take (pos + n) ?r = take pos data @ take n (drop pos data)"
    using assms by (simp add: min_absorb2)
  also have "\<dots> = take (pos + n) data"
    by (simp add: take_add)
  finally have 3: "take (pos + n) ?r = take (pos + n) data" .
  from 1 2 3 show ?thesis by blast
qed

lemma copy_block_prefix:
  assumes "length r = length data" and "take pos r = take pos data"
    and "\<And>q. ptr = Some q \<Longrightarrow> q = pos \<and> pos + n \<le> length data"
    and "pos' = (case ptr of None \<Rightarrow> pos | Some q \<Rightarrow> pos + n)"
  shows "\<exists>r'. copy_block r pos data ptr n = Inr (r', pos') \<and> length r' = length data
               \<and> take pos' r' = take pos' data"
proof (cases ptr)
  case None
  with assms show ?thesis by (simp add: copy_block_def)
next
  case (Some q)
  with assms(3) have q: "q = pos" "pos + n \<le> length data" by auto
  from memcpy_prefix [OF assms(1,2) q(2)] obtain r' where
    "memcpy r pos data pos n = Inr r'" "length r' = length data"
    "take (pos + n) r' = take (pos + n) data" by blast
  with Some q assms(4) show ?thesis by (simp add: copy_block_def bindF_def)
qed

lemma Parse_Some_packet:
  assumes "Parse data = Inr (Some p)"
  obtains pos csz ext evs plen ppad where
    "Parse_headers data = Some (pos, csz, ext, evs)"
    "p = RtpPacket_new 0 ext (if plen = 0 then None else Some pos) plen ppad data (length data)"
    "length data = pos + plen + unat ppad"
    "ppad \<noteq> 0 \<longrightarrow> data ! (length data - 1) = ppad"
proof (cases "Parse_headers data")
  case None
  with assms show ?thesis by (simp add: Parse_def)
next
  case (Some t)
  then obtain pos csz ext evs where h: "Parse_headers data = Some (pos, csz, ext, evs)"
    by (cases t) auto
  have le: "pos \<le> length data" by (rule Parse_headers_SomeD(3) [OF h])
  have sum: "pos + (payloadLength p + unat (payloadPadding p)) = length data"
    using Parse_Some_fields [OF h assms] le by (simp only: le_add_diff_inverse)
  let ?b = "data ! (length data - 1)"
  show ?thesis
  proof (cases "padding data 0")
    case False
    with assms have p: "p = RtpPacket_new 0 ext (if length data - pos = 0 then None else Some pos)
               (length data - pos) 0 data (length data)"
      by (simp add: Parse_cases [OF h])
    show ?thesis
      by (rule that [OF h p]) (use le in simp_all)
  next
    case True
    have rej: "\<not> (length data - pos = 0 \<or> ?b = 0 \<or> length data - pos < unat ?b)"
    proof
      assume "length data - pos = 0 \<or> ?b = 0 \<or> length data - pos < unat ?b"
      then have "Parse data = Inr None" using True by (simp only: Parse_cases [OF h] if_True)
      with assms show False by simp
    qed
    then have "Parse data = Inr (Some (RtpPacket_new 0 ext
               (if length data - pos - unat ?b = 0 then None else Some pos)
               (length data - pos - unat ?b) ?b data (length data)))"
      using True by (simp only: Parse_cases [OF h] if_True if_False)
    with assms have p: "p = RtpPacket_new 0 ext
               (if length data - pos - unat ?b = 0 then None else Some pos)
               (length data - pos - unat ?b) ?b data (length data)"
      by simp
    from rej have "unat ?b \<le> length data - pos" by (simp only: de_Morgan_disj not_less)
    then have "length data - pos - unat ?b + unat ?b = length data - pos"
      by (rule le_add_diff_inverse2)
    with le have "length data = pos + (length data - pos - unat ?b) + unat ?b"
      by simp
    then show ?thesis
      by (rule that [OF h p]) simp
  qed
qed

lemma Serialize_parsed:
  assumes h: "Parse_headers data = Some (pos, csz, ext, evs)"
    and p: "p = RtpPacket_new 0 ext (if plen = 0 then None else Some pos) plen ppad data (length data)"
    and len: "length data = pos + plen + unat ppad"
  shows "\<exists>q r4. Serialize junk p = Inr q \<and> length r4 = length data
           \<and> take (pos + plen) r4 = take (pos + plen) data
           \<and> raw q = (if ppad \<noteq> 0 then r4[length data - 1 := ppad] else r4)
           \<and> length_rtp q = length data"
proof -
  note d = Parse_headers_SomeD [OF h]
  let ?cc = "csrc_count data 0"
  have f: "isSerialized p = False" "raw p = data" "header p = 0"
    "csrcList p = (if ?cc \<noteq> 0 then Some sizeof_Header else None)"
    "extensionHeader p = ext" "payload p = (if plen = 0 then None else Some pos)"
    "payloadLength p = plen" "payloadPadding p = ppad"
    by (simp_all add: p RtpPacket_new_def)
  have l12: "sizeof_Header \<le> length data" using d(1) by (simp add: IsRtp_def)
  have evs: "(case ext of None \<Rightarrow> Inr 0
               | Some e \<Rightarrow> if e + 4 \<le> length data then Inr (ntohs_length data e * 4)
                           else Inl OutOfBounds) = (Inr evs :: fault + nat)"
    using d(3,4,5) by (cases "extension data 0") simp_all
  have pos: "pos = sizeof_Header + csz + (case ext of Some e \<Rightarrow> 4 + evs | None \<Rightarrow> 0)"
    by (rule Parse_headers_pos [OF h])
  have total: "sizeof_Header + (case csrcList p of None \<Rightarrow> 0 | Some c \<Rightarrow> ?cc * 4)
                  + (case ext of None \<Rightarrow> 0 | Some e \<Rightarrow> 4 + evs) + plen + unat ppad = length data"
    using d(2) by (simp add: f len pos split: option.split)
  let ?new = "new_array junk (length data)"
  have n0: "length ?new = length data" by (simp add: new_array_def)
  from memcpy_prefix [OF n0 _ , of 0 sizeof_Header] l12
  obtain r1 where r1: "memcpy ?new 0 data 0 sizeof_Header = Inr r1" "length r1 = length data"
    "take sizeof_Header r1 = take sizeof_Header data" by auto
  have "r1 ! 0 = data ! 0"
    using r1(3) by (metis nth_take zero_less_numeral sizeof_Header_def)
  then have cc1: "csrc_count r1 0 = ?cc" by (simp add: csrc_count_def)
  have "\<exists>r2. copy_block r1 sizeof_Header data (csrcList p) (?cc * 4) = Inr (r2, sizeof_Header + csz)
         \<and> length r2 = length data \<and> take (sizeof_Header + csz) r2 = take (sizeof_Header + csz) data"
    by (rule copy_block_prefix [OF r1(2) r1(3)])
       (use d(2,3) pos in \<open>auto simp: f split: if_splits\<close>)
  then obtain r2 where r2: "copy_block r1 sizeof_Header data (csrcList p) (?cc * 4) = Inr (r2, sizeof_Header + csz)"
    "length r2 = length data" "take (sizeof_Header + csz) r2 = take (sizeof_Header + csz) data" by blast
  have "\<exists>r3. copy_block r2 (sizeof_Header + csz) data ext (4 + evs) = Inr (r3, pos)
         \<and> length r3 = length data \<and> take pos r3 = take pos data"
    by (rule copy_block_prefix [OF r2(2) r2(3)])
       (use d(3,4,5) pos in \<open>auto split: option.splits\<close>)
  then obtain r3 where r3: "copy_block r2 (sizeof_Header + csz) data ext (4 + evs) = Inr (r3, pos)"
    "length r3 = length data" "take pos r3 = take pos data" by blast
  have "\<exists>r4. copy_block r3 pos data (payload p) plen = Inr (r4, pos + plen)
         \<and> length r4 = length data \<and> take (pos + plen) r4 = take (pos + plen) data"
    by (rule copy_block_prefix [OF r3(2) r3(3)])
       (use len in \<open>auto simp: f split: if_splits\<close>)
  then obtain r4 where r4: "copy_block r3 pos data (payload p) plen = Inr (r4, pos + plen)"
    "length r4 = length data" "take (pos + plen) r4 = take (pos + plen) data" by blast
  let ?r5 = "if ppad \<noteq> 0 then r4[length data - 1 := ppad] else r4"
  have pad: "add_payload_padding r4 (pos + plen) ppad = Inr (?r5, length data)"
  proof (cases "ppad = 0")
    case True
    then show ?thesis using len by (simp add: add_payload_padding_def)
  next
    case False
    then have "0 < unat ppad" by (simp add: unat_gt_0)
    then show ?thesis using False len r4(2)
      by (simp add: add_payload_padding_def store_byte_def bindF_def)
  qed
  have "Serialize junk p = Inr (p\<lparr> header := 0,
                     csrcList := map_option (\<lambda>c. sizeof_Header) (csrcList p),
                     extensionHeader := map_option (\<lambda>e. sizeof_Header + csz) ext,
                     payload := map_option (\<lambda>q. pos) (payload p),
                     raw := ?r5,
                     length_rtp := length data,
                     isSerialized := True \<rparr>)"
    unfolding Serialize_def
    by (simp only: f(1,2,3,5,7,8) if_False Let_def add_0 l12 if_True evs bindF_def sum.case
          total r1(1) cc1 r2(1) r3(1) r4(1) pad prod.case refl)
  then show ?thesis using r4(2,3) by auto
qed

text \<open>
  C1, as the code has it: for every buffer that \<open>Parse\<close> accepts, \<open>Serialize\<close> on the
  unchanged packet returns, whatever the new buffer held before; the new buffer has the
  length of the input and equals it at every byte of header, CSRC list, extension and payload
  and at the last padding byte, which holds the padding length. With no padding, or one byte
  of it, the new buffer is the input.
\<close>

theorem Serialize_Parse_roundtrip:
  assumes "Parse data = Inr (Some p)"
  shows "\<exists>q. Serialize junk p = Inr q
           \<and> length (raw q) = length data \<and> length_rtp q = length data
           \<and> (\<forall>i < length data.
                 i < length data - unat (payloadPadding p) \<or> i = length data - 1
                 \<longrightarrow> raw q ! i = data ! i)
           \<and> (unat (payloadPadding p) \<le> 1 \<longrightarrow> raw q = data)"
proof -
  obtain pos csz ext evs plen ppad where
    h: "Parse_headers data = Some (pos, csz, ext, evs)" and
    p: "p = RtpPacket_new 0 ext (if plen = 0 then None else Some pos) plen ppad data (length data)" and
    len: "length data = pos + plen + unat ppad" and
    lastb: "ppad \<noteq> 0 \<longrightarrow> data ! (length data - 1) = ppad"
    by (rule Parse_Some_packet [OF assms]) blast
  from Serialize_parsed [OF h p len, of junk] obtain q r4 where
    q: "Serialize junk p = Inr q" and l4: "length r4 = length data" and
    t4: "take (pos + plen) r4 = take (pos + plen) data" and
    rq: "raw q = (if ppad \<noteq> 0 then r4[length data - 1 := ppad] else r4)" and
    lq: "length_rtp q = length data"
    by blast
  have pp: "payloadPadding p = ppad" by (simp add: p RtpPacket_new_def)
  have body: "length data - unat ppad = pos + plen" using len by simp
  have lr: "length (raw q) = length data" using rq l4 by simp
  have pre: "r4 ! i = data ! i" if "i < pos + plen" for i
    using that t4 by (metis nth_take)
  have nth: "raw q ! i = data ! i"
    if i: "i < length data" and c: "i < length data - unat ppad \<or> i = length data - 1" for i
  proof (cases "ppad = 0")
    case True
    with c i body have "i < pos + plen" by auto
    with True rq show ?thesis by (simp add: pre)
  next
    case False
    show ?thesis
    proof (cases "i = length data - 1")
      case True
      then show ?thesis using False rq l4 i lastb by simp
    next
      case neq: False
      with c body have "i < pos + plen" by simp
      then show ?thesis using False rq neq by (simp add: pre)
    qed
  qed
  have eq: "raw q = data" if "unat ppad \<le> 1"
  proof (rule nth_equalityI [OF lr])
    fix i assume "i < length (raw q)"
    then have i: "i < length data" by (simp only: lr)
    with that have "i < length data - unat ppad \<or> i = length data - 1" by arith
    with i show "raw q ! i = data ! i" by (rule nth)
  qed
  from q lr lq nth eq show ?thesis unfolding pp by blast
qed

theorem Serialize_Parse_roundtrip_witness:
  "Parse [0x80, 0x60, 0, 1, 0, 0, 0, 0x64, 0x12, 0x34, 0x56, 0x78, 0xDE, 0xAD, 0xBE, 0xEF]
     = Inr (Some (RtpPacket_new 0 None (Some 12) 4 0
         [0x80, 0x60, 0, 1, 0, 0, 0, 0x64, 0x12, 0x34, 0x56, 0x78, 0xDE, 0xAD, 0xBE, 0xEF] 16))
   \<and> (\<exists>q. Serialize zero_fill (RtpPacket_new 0 None (Some 12) 4 0
         [0x80, 0x60, 0, 1, 0, 0, 0, 0x64, 0x12, 0x34, 0x56, 0x78, 0xDE, 0xAD, 0xBE, 0xEF] 16) = Inr q
        \<and> raw q = [0x80, 0x60, 0, 1, 0, 0, 0, 0x64, 0x12, 0x34, 0x56, 0x78, 0xDE, 0xAD, 0xBE, 0xEF])"
proof -
  let ?d = "[0x80, 0x60, 0, 1, 0, 0, 0, 0x64, 0x12, 0x34, 0x56, 0x78, 0xDE, 0xAD, 0xBE, 0xEF] :: u8 list"
  let ?p = "RtpPacket_new 0 None (Some 12) 4 0 ?d 16"
  have e: "Parse ?d = Inr (Some ?p)" by (simp add: rtp_eval)
  have z: "unat (payloadPadding ?p) \<le> 1" by (simp add: RtpPacket_new_def)
  from Serialize_Parse_roundtrip [OF e, of zero_fill] z e show ?thesis by blast
qed

text \<open>
  Byte equality of the whole buffer fails: a packet with two bytes of padding, the first of
  them 7, serialised into a buffer that the allocator handed out zeroed.
\<close>

theorem Serialize_Parse_byte_equal_counterexample:
  "parse_serialize zero_fill
     [0xA0, 0x60, 0, 1, 0, 0, 0, 0x64, 0x12, 0x34, 0x56, 0x78, 0xDE, 0xAD, 0x07, 0x02]
   \<noteq> Some [0xA0, 0x60, 0, 1, 0, 0, 0, 0x64, 0x12, 0x34, 0x56, 0x78, 0xDE, 0xAD, 0x07, 0x02]"
  by (simp add: parse_serialize_def rtp_eval Serialize_def bindF_def memcpy_def copy_block_def
      add_payload_padding_def store_byte_def new_array_def zero_fill_def upt_rec)

section \<open>Verification: RTCP BYE packet\<close>

subsection \<open>\<open>ByePacket::Parse\<close>\<close>

lemmas bye_eval = Bye_Parse_def Get1Byte_def Get1Byte_past_def Get4Bytes_def be32_def header_count_def
  sizeof_CommonHeader_def size_t_sub_def Parse_ssrcs.simps string_at_def bindF_def Let_def

lemma Parse_ssrcs_count_0:
  "Parse_ssrcs data c off acc = Inr (Some (c', off', ss)) \<Longrightarrow> c' = 0 \<Longrightarrow>
     size_t_sub (length data) off' = 0"
proof (induction data c off acc rule: Parse_ssrcs.induct)
  case (1 data count offset acc)
  show ?case
  proof (cases "count = 0")
    case True
    with "1.prems" show ?thesis by (simp add: Parse_ssrcs.simps [of data])
  next
    case c: False
    show ?thesis
    proof (cases "size_t_sub (length data) offset > 0")
      case False
      with c "1.prems" show ?thesis by (simp add: Parse_ssrcs.simps [of data])
    next
      case True
      with c "1.prems"(1) have ge: "\<not> 4 > size_t_sub (length data) offset"
        by (auto simp: Parse_ssrcs.simps [of data] split: if_splits)
      with c True "1.prems"(1) obtain ssrc where g: "Get4Bytes data offset = Inr ssrc"
        and r: "Parse_ssrcs data (count - 1) (offset + 4) (acc @ [ssrc]) = Inr (Some (c', off', ss))"
        by (auto simp: Parse_ssrcs.simps [of data] split: sum.splits)
      from "1.IH" [OF c True ge g r "1.prems"(2)] show ?thesis .
    qed
  qed
qed

lemma Bye_Parse_reason_empty:
  assumes "Bye_Parse past data = Inr (Some p)"
  shows "reason p = []"
proof -
  from assms obtain b0 where b0: "Get1Byte data 0 = Inr b0"
    by (auto simp: Bye_Parse_def bindF_def split: sum.splits)
  from assms b0 obtain c off ss where
    l: "Parse_ssrcs data (header_count b0) sizeof_CommonHeader [] = Inr (Some (c, off, ss))"
    by (auto simp: Bye_Parse_def bindF_def split: sum.splits option.splits)
  show ?thesis
  proof (cases "c = 0")
    case False
    with assms b0 l show ?thesis by (auto simp: Bye_Parse_def bindF_def Let_def)
  next
    case True
    from Parse_ssrcs_count_0 [OF l True] have z: "size_t_sub (length data) off = 0" .
    from assms b0 l True obtain ln where "Get1Byte_past past data off = Inr ln"
      by (auto simp: Bye_Parse_def bindF_def Let_def split: sum.splits)
    with assms b0 l True z show ?thesis
      by (auto simp: Bye_Parse_def bindF_def Let_def)
  qed
qed

lemma Parse_ssrcs_present:
  "off + 4 * unat c \<le> length data \<Longrightarrow>
     Parse_ssrcs data c off acc = Inr (Some (255, off + 4 * unat c, acc @ ssrcs_at data off (unat c)))"
proof (induction data c off acc rule: Parse_ssrcs.induct)
  case (1 data count offset acc)
  show ?case
  proof (cases "count = 0")
    case True
    then show ?thesis by (simp add: Parse_ssrcs.simps [of data])
  next
    case c: False
    then have u: "unat count = Suc (unat (count - 1))"
      by (simp add: unat_minus_one unat_gt_0)
    with "1.prems" have room: "offset + 4 \<le> length data"
      and rest: "offset + 4 + 4 * unat (count - 1) \<le> length data" by simp_all
    from room have sub: "size_t_sub (length data) offset = length data - offset"
      by (simp add: size_t_sub_def)
    with room have pos: "size_t_sub (length data) offset > 0"
      and ge: "\<not> 4 > size_t_sub (length data) offset" by simp_all
    let ?s = "be32 (data ! offset) (data ! (offset + 1)) (data ! (offset + 2)) (data ! (offset + 3))"
    from room have g: "Get4Bytes data offset = Inr ?s" by (simp add: Get4Bytes_def)
    from "1.IH" [OF c pos ge g rest]
    have "Parse_ssrcs data (count - 1) (offset + 4) (acc @ [?s])
            = Inr (Some (255, offset + 4 + 4 * unat (count - 1),
                         (acc @ [?s]) @ ssrcs_at data (offset + 4) (unat (count - 1))))" .
    then show ?thesis
      using c pos ge g by (simp add: Parse_ssrcs.simps [of data count] u)
  qed
qed

lemma Bye_Parse_well_formed:
  assumes "sizeof_CommonHeader + 4 * unat (header_count (data ! 0)) \<le> length data"
  shows "Bye_Parse past data
           = Inr (Some \<lparr> ssrcs = ssrcs_at data sizeof_CommonHeader (unat (header_count (data ! 0))),
                          reason = [] \<rparr>)"
proof -
  have b0: "Get1Byte data 0 = Inr (data ! 0)"
    using assms by (cases data) (simp_all add: Get1Byte_def sizeof_CommonHeader_def)
  show ?thesis
    by (simp add: Bye_Parse_def b0 bindF_def Parse_ssrcs_present [OF assms] Let_def)
qed

text \<open>
  A datagram that announces three SSRCs and ends behind the second: the loop is left with
  \<open>count\<close> 0, the length byte is read behind the datagram, the bounds test fails whatever
  that byte is, and the packet with the two SSRCs is returned.
\<close>

lemma Bye_Parse_one_ssrc_short:
  "Bye_Parse past [0x83, 0xCB, 0, 2, 0, 0, 0x11, 0x11, 0, 0, 0x22, 0x22]
     = Inr (Some \<lparr> ssrcs = [0x1111, 0x2222], reason = [] \<rparr>)"
  by (simp add: bye_eval)

text \<open>
  C3 at a well-formed BYE datagram with one SSRC (0x1111) and the reason \<open>bye\<close> behind its
  length byte: \<open>ByePacket::Parse\<close> returns a packet with that SSRC and an empty reason.
  The loop leaves \<open>count\<close> at 255 when all announced SSRCs have been read, so the test
  \<open>count == 0\<close> behind the loop fails and the reason is not read
  (\<open>Bye_Parse_reason_empty\<close> above: no input gives a packet with a reason;
  \<open>Bye_Parse_well_formed\<close>: the announced SSRCs are returned in order).
\<close>

theorem Bye_Parse_drops_reason:
  "Bye_Parse past [0x81, 0xCB, 0, 2, 0, 0, 0x11, 0x11, 3, 0x62, 0x79, 0x65]
     = Inr (Some \<lparr> ssrcs = [0x1111], reason = [] \<rparr>)"
  by (simp add: bye_eval)

subsection \<open>\<open>ByePacket::Serialize\<close>\<close>

lemma and3_nat: "(n :: nat) AND 3 = n mod 4"
proof -
  have "n AND mask 2 = n mod 2 ^ 2" by (simp only: take_bit_eq_mask [symmetric] take_bit_eq_mod)
  then show ?thesis by (simp add: mask_eq_exp_minus_1)
qed

lemma int_size_t_neg: "int (size_t_neg off) = (- int off) mod 2 ^ 64"
proof -
  have lt: "off mod 2 ^ 64 \<le> 2 ^ 64" by simp
  have "int (size_t_neg off) = (2 ^ 64 - int off mod 2 ^ 64) mod 2 ^ 64"
    unfolding size_t_neg_def by (simp add: zmod_int of_nat_diff [OF lt])
  also have "\<dots> = (0 - int off mod 2 ^ 64) mod 2 ^ 64"
    by (metis diff_0 mod_add_self1 uminus_add_conv_diff add.commute)
  also have "\<dots> = (- int off) mod 2 ^ 64"
    by (simp add: mod_minus_eq)
  finally show ?thesis .
qed

lemma size_t_neg_and3: "size_t_neg off AND 3 = nat ((- int off) mod 4)"
proof -
  have "int (size_t_neg off mod 4) = (- int off) mod 2 ^ 64 mod 4"
    by (simp add: zmod_int int_size_t_neg)
  also have "\<dots> = (- int off) mod 4"
    by (rule mod_mod_cancel) simp
  finally show ?thesis by (simp add: and3_nat)
qed

lemma memcpy_Inr:
  "memcpy dst d src s n = Inr r \<Longrightarrow> length r = length dst \<and> d + n \<le> length dst"
  by (auto simp: memcpy_def split: if_splits)

lemma memcpy_ok:
  "d + n \<le> length dst \<Longrightarrow> s + n \<le> length src \<Longrightarrow> \<exists>r. memcpy dst d src s n = Inr r"
  by (simp add: memcpy_def)

lemma Packet_Serialize_Inr:
  assumes "Packet_Serialize p data = Inr (n, d)"
  shows "n = sizeof_CommonHeader \<and> length d = length data"
proof -
  from assms obtain r where "memcpy data 0 [0x80 OR (of_nat (length (ssrcs p)) AND 0x1F), 203,
        of_nat ((Bye_GetSize p div 4 - 1) div 256), of_nat (Bye_GetSize p div 4 - 1)] 0 sizeof_CommonHeader = Inr r"
    and "n = sizeof_CommonHeader" and "d = r"
    by (auto simp: Packet_Serialize_def Let_def bindF_def split: sum.splits)
  then show ?thesis using memcpy_Inr by blast
qed

lemma Packet_Serialize_ok:
  assumes "sizeof_CommonHeader \<le> length data"
  shows "\<exists>d. Packet_Serialize p data = Inr (sizeof_CommonHeader, d)"
proof -
  have "\<exists>r. memcpy data 0 [0x80 OR (of_nat (length (ssrcs p)) AND 0x1F), 203,
        of_nat ((Bye_GetSize p div 4 - 1) div 256), of_nat (Bye_GetSize p div 4 - 1)] 0 sizeof_CommonHeader = Inr r"
    by (rule memcpy_ok) (use assms in \<open>simp_all add: sizeof_CommonHeader_def\<close>)
  then show ?thesis by (auto simp: Packet_Serialize_def Let_def bindF_def)
qed

lemma length_host_bytes: "length (host_bytes le w) = 4"
  by (simp add: host_bytes_def Let_def)

lemma Serialize_ssrcs_Inr:
  "Serialize_ssrcs le ss data off = Inr (d, n) \<Longrightarrow> n = off + 4 * length ss \<and> length d = length data"
proof (induction ss arbitrary: data off)
  case Nil
  then show ?case by simp
next
  case (Cons s ss)
  then obtain d1 where m: "memcpy data 0 (host_bytes le s) 0 4 = Inr d1"
    and r: "Serialize_ssrcs le ss d1 (off + 4) = Inr (d, n)"
    by (auto split: sum.splits)
  from Cons.IH [OF r] memcpy_Inr [OF m] show ?case by simp
qed

lemma Serialize_ssrcs_ok:
  "4 \<le> length data \<Longrightarrow> \<exists>d. Serialize_ssrcs le ss data off = Inr (d, off + 4 * length ss)"
proof (induction ss arbitrary: data off)
  case Nil
  then show ?case by simp
next
  case (Cons s ss)
  from memcpy_ok [of 0 4 data 0 "host_bytes le s"] Cons.prems
  obtain d1 where m: "memcpy data 0 (host_bytes le s) 0 4 = Inr d1"
    by (auto simp: length_host_bytes)
  with memcpy_Inr [OF m] Cons.prems have "4 \<le> length d1" by simp
  from Cons.IH [OF this, of "off + 4"] m show ?case by (auto simp: add.assoc)
qed

lemma Serialize_padding_Inr:
  "Serialize_padding data off n i = Inr d \<Longrightarrow>
     length d = length data \<and> (\<forall>j. off + i \<le> j \<and> j < off + n \<longrightarrow> d ! j = 0)
     \<and> (\<forall>j < off + i. d ! j = data ! j)"
proof (induction data off n i rule: Serialize_padding.induct)
  case (1 data off n i)
  show ?case
  proof (cases "i < n")
    case False
    with "1.prems" have "d = data" by (simp add: Serialize_padding.simps [of data])
    with False show ?thesis by auto
  next
    case True
    with "1.prems" obtain d1 where s: "store_byte data (off + i) 0 = Inr d1"
      and r: "Serialize_padding d1 off n (i + 1) = Inr d"
      by (simp add: Serialize_padding.simps [of data] split: sum.splits)
    from s have d1: "d1 = data[off + i := 0]" and lt: "off + i < length data"
      by (auto simp: store_byte_def split: if_splits)
    from "1.IH" [OF True s r] have ih: "length d = length d1"
      "\<And>j. off + (i + 1) \<le> j \<Longrightarrow> j < off + n \<Longrightarrow> d ! j = 0"
      "\<And>j. j < off + (i + 1) \<Longrightarrow> d ! j = d1 ! j"
      by auto
    have a: "length d = length data" using ih(1) d1 by simp
    have b: "d ! j = 0" if "off + i \<le> j" "j < off + n" for j
    proof (cases "j = off + i")
      case True
      then have "d ! j = d1 ! j" using ih(3) by simp
      then show ?thesis using True d1 lt by simp
    next
      case False
      with that show ?thesis using ih(2) by simp
    qed
    have c: "d ! j = data ! j" if "j < off + i" for j
    proof -
      have "d ! j = d1 ! j" using that ih(3) by simp
      then show ?thesis using that d1 by simp
    qed
    from a b c show ?thesis by blast
  qed
qed

lemma Serialize_padding_ok:
  "off + n \<le> length data \<Longrightarrow> \<exists>d. Serialize_padding data off n i = Inr d"
proof (induction data off n i rule: Serialize_padding.induct)
  case (1 data off n i)
  show ?case
  proof (cases "i < n")
    case False
    then show ?thesis by (simp add: Serialize_padding.simps [of data])
  next
    case True
    with "1.prems" have s: "store_byte data (off + i) 0 = Inr (data[off + i := 0])"
      by (simp add: store_byte_def)
    from "1.IH" [OF True s] "1.prems" obtain d
      where "Serialize_padding (data[off + i := 0]) off n (i + 1) = Inr d" by auto
    with True s show ?thesis by (simp add: Serialize_padding.simps [of data])
  qed
qed

lemma Bye_Serialize_Inr:
  assumes "Bye_Serialize le p data = Inr (n, out)"
  shows "n = unpadded_offset p + nat ((- int (unpadded_offset p)) mod 4)
         \<and> length out = length data
         \<and> (\<forall>i. unpadded_offset p \<le> i \<and> i < n \<longrightarrow> out ! i = 0)"
proof -
  from assms obtain off0 d0 where s0: "Packet_Serialize p data = Inr (off0, d0)"
    by (auto simp: Bye_Serialize_def bindF_def split: sum.splits)
  from assms s0 obtain d1 off1 where s1: "Serialize_ssrcs le (ssrcs p) d0 off0 = Inr (d1, off1)"
    by (auto simp: Bye_Serialize_def bindF_def split: sum.splits)
  let ?R = "if reason p \<noteq> []
            then bindF (Set1Byte d1 off1 (of_nat (length (reason p))))
                       (\<lambda>d. Inr (d, off1 + 1 + length (reason p)))
            else Inr (d1, off1)"
  from assms s0 s1 obtain d2 off2 where s2: "?R = Inr (d2, off2)"
    by (auto simp: Bye_Serialize_def bindF_def split: sum.splits)
  let ?pad = "size_t_neg off2 AND 3"
  from assms s0 s1 s2 obtain d3 where s3: "Serialize_padding d2 off2 ?pad 0 = Inr d3"
    and res: "n = off2 + ?pad" "out = d3"
    by (auto simp: Bye_Serialize_def bindF_def Let_def split: sum.splits)
  from Packet_Serialize_Inr [OF s0] have o0: "off0 = sizeof_CommonHeader" "length d0 = length data"
    by simp_all
  from Serialize_ssrcs_Inr [OF s1] have o1: "off1 = off0 + 4 * length (ssrcs p)" "length d1 = length d0"
    by simp_all
  from s2 have o2: "off2 = off1 + (if reason p \<noteq> [] then 1 + length (reason p) else 0)"
    "length d2 = length d1"
    by (auto simp: bindF_def Set1Byte_def store_byte_def split: if_splits sum.splits)
  have off: "off2 = unpadded_offset p"
    by (simp add: unpadded_offset_def o0 o1 o2)
  note pd = Serialize_padding_Inr [OF s3]
  have "length out = length data" using pd res o0 o1 o2 by simp
  moreover have "\<forall>i. unpadded_offset p \<le> i \<and> i < n \<longrightarrow> out ! i = 0"
    using pd res off by simp
  moreover have "n = unpadded_offset p + nat ((- int (unpadded_offset p)) mod 4)"
    using res off by (simp add: size_t_neg_and3)
  ultimately show ?thesis by blast
qed

lemma Bye_Serialize_ok:
  assumes "unpadded_offset p + nat ((- int (unpadded_offset p)) mod 4) \<le> length data"
  shows "\<exists>out. Bye_Serialize le p data
           = Inr (unpadded_offset p + nat ((- int (unpadded_offset p)) mod 4), out)"
proof -
  let ?pad = "nat ((- int (unpadded_offset p)) mod 4)"
  have l4: "sizeof_CommonHeader \<le> length data"
    using assms by (simp add: unpadded_offset_def)
  from Packet_Serialize_ok [OF l4] obtain d0
    where s0: "Packet_Serialize p data = Inr (sizeof_CommonHeader, d0)" by blast
  from Packet_Serialize_Inr [OF s0] have l0: "length d0 = length data" by simp
  with l4 have "4 \<le> length d0" by (simp add: sizeof_CommonHeader_def)
  from Serialize_ssrcs_ok [OF this] obtain d1 where
    s1: "Serialize_ssrcs le (ssrcs p) d0 sizeof_CommonHeader
           = Inr (d1, sizeof_CommonHeader + 4 * length (ssrcs p))" by blast
  from Serialize_ssrcs_Inr [OF s1] have l1: "length d1 = length d0" by simp
  let ?off1 = "sizeof_CommonHeader + 4 * length (ssrcs p)"
  let ?R = "if reason p \<noteq> []
            then bindF (Set1Byte d1 ?off1 (of_nat (length (reason p))))
                       (\<lambda>d. Inr (d, ?off1 + 1 + length (reason p)))
            else Inr (d1, ?off1)"
  have "\<exists>d2. ?R = Inr (d2, unpadded_offset p) \<and> length d2 = length data"
  proof (cases "reason p = []")
    case True
    then show ?thesis using l0 l1 by (simp add: unpadded_offset_def)
  next
    case False
    then have "?off1 < length d1" using assms l0 l1 by (simp add: unpadded_offset_def)
    then show ?thesis using False l0 l1
      by (simp add: unpadded_offset_def Set1Byte_def store_byte_def bindF_def)
  qed
  then obtain d2 where s2: "?R = Inr (d2, unpadded_offset p)" and l2: "length d2 = length data"
    by blast
  have "unpadded_offset p + (size_t_neg (unpadded_offset p) AND 3) \<le> length d2"
    using assms l2 by (simp add: size_t_neg_and3)
  from Serialize_padding_ok [OF this, of 0] obtain d3 where
    s3: "Serialize_padding d2 (unpadded_offset p) (size_t_neg (unpadded_offset p) AND 3) 0 = Inr d3"
    by blast
  have "Bye_Serialize le p data = Inr (unpadded_offset p + ?pad, d3)"
    unfolding Bye_Serialize_def
    by (simp only: s0 bindF_def sum.case prod.case s1 s2 [unfolded bindF_def] Let_def
          size_t_neg_and3 s3 [unfolded size_t_neg_and3])
  then show ?thesis by blast
qed

lemma pad4: "((n :: nat) + nat ((- int n) mod 4)) mod 4 = 0"
proof -
  have "(int n + (- int n) mod 4) mod 4 = 0"
    by (simp add: mod_add_right_eq)
  then have "int ((n + nat ((- int n) mod 4)) mod 4) = 0"
    by (simp add: zmod_int)
  then show ?thesis by simp
qed

text \<open>
  C7: with \<open>offset\<close> the offset behind the SSRCs and the reason, the size that
  \<open>ByePacket::Serialize\<close> returns is \<open>offset + (-offset) mod 4\<close>, a multiple of 4, and every
  byte of the buffer from \<open>offset\<close> up to the returned size is 0. \<open>Serialize\<close> does return
  when the buffer of the caller holds that many bytes.
\<close>

theorem Bye_Serialize_padding:
  "(unpadded_offset p + nat ((- int (unpadded_offset p)) mod 4)) mod 4 = 0
   \<and> (Bye_Serialize le p data = Inr (n, out) \<longrightarrow>
        n = unpadded_offset p + nat ((- int (unpadded_offset p)) mod 4)
        \<and> length out = length data
        \<and> (\<forall>i. unpadded_offset p \<le> i \<and> i < n \<longrightarrow> out ! i = 0))
   \<and> (unpadded_offset p + nat ((- int (unpadded_offset p)) mod 4) \<le> length data \<longrightarrow>
        (\<exists>out'. Bye_Serialize le p data
           = Inr (unpadded_offset p + nat ((- int (unpadded_offset p)) mod 4), out')))"
  using Bye_Serialize_Inr [of le p data n out] Bye_Serialize_ok [of p data le] pad4 [of "unpadded_offset p"]
  by blast

theorem Bye_Serialize_padding_witness:
  "unpadded_offset \<lparr> ssrcs = [0x1111], reason = ''by'' \<rparr> = 11
   \<and> (\<exists>out. Bye_Serialize True \<lparr> ssrcs = [0x1111], reason = ''by'' \<rparr>
               [0xFF, 0xFF, 0xFF, 0xFF, 0xFF, 0xFF, 0xFF, 0xFF, 0xFF, 0xFF, 0xFF, 0xFF]
             = Inr (12, out) \<and> out ! 11 = 0)"
proof -
  let ?p = "\<lparr> ssrcs = [0x1111], reason = ''by'' \<rparr>"
  let ?d = "[0xFF, 0xFF, 0xFF, 0xFF, 0xFF, 0xFF, 0xFF, 0xFF, 0xFF, 0xFF, 0xFF, 0xFF] :: u8 list"
  have u: "unpadded_offset ?p = 11"
    by (simp add: unpadded_offset_def sizeof_CommonHeader_def)
  have sz: "unpadded_offset ?p + nat ((- int (unpadded_offset ?p)) mod 4) = 12"
    by (simp add: u)
  have fits: "unpadded_offset ?p + nat ((- int (unpadded_offset ?p)) mod 4) \<le> length ?d"
    by (simp add: sz)
  from Bye_Serialize_padding [of ?p True ?d 0 "[]"] fits
  obtain out where o: "Bye_Serialize True ?p ?d = Inr (12, out)"
    unfolding sz by blast
  from Bye_Serialize_padding [of ?p True ?d 12 out] o
  have "\<forall>i. unpadded_offset ?p \<le> i \<and> i < 12 \<longrightarrow> out ! i = 0" by blast
  then have "out ! 11 = 0" unfolding u by simp
  with u o show ?thesis by blast
qed

section \<open>Verification: UnixStreamSocket\<close>

lemmas sock_eval = step_def Close_def Write_def Write_pending_def onUvRead_def onUvWriteError_def
  on_write_def onUvShutdown_def onUvClosed_def uv_read_stop_def uv_shutdown_def uv_close_def
  uv_hand_over_def UnixStreamSocket_new_def env0_def Let_def
  UV_EOF_def UV_EAGAIN_def UV_EPIPE_def UV_ENOSYS_def UV_ECONNRESET_def UV_ENOTCONN_def
  UV_ECANCELED_def

subsection \<open>Write\<close>

text \<open>
  C9: a call of \<open>Write\<close> on a socket whose \<open>Close\<close> has begun, or with no data, returns
  the socket as it was: no field changes and nothing is handed over to the handle.
\<close>

theorem Write_noop:
  "isClosing s \<or> length data = 0 \<Longrightarrow> Write env s data = Inr s"
  by (auto simp: Write_def)

theorem Write_noop_witness:
  "(isClosing (UnixStreamSocket_new 16) \<or> length ([] :: u8 list) = 0)
   \<and> Write env0 (UnixStreamSocket_new 16) [] = Inr (UnixStreamSocket_new 16)"
  using Write_noop [of "UnixStreamSocket_new 16" "[]" env0] by simp

subsection \<open>The receive buffer\<close>

text \<open>
  C10: \<open>onUvReadAlloc\<close> offers the space that starts at \<open>buffer + bufferDataLen\<close>, of
  length \<open>bufferSize - bufferDataLen\<close> when \<open>bufferDataLen < bufferSize\<close> and of length 0
  otherwise; the space offered ends at the end of the buffer, which has \<open>bufferSize\<close>
  bytes. The buffer is allocated by the first such call and kept by the later ones; a new
  socket has none. A read of at most the offered length leaves \<open>bufferDataLen\<close> within
  \<open>bufferSize\<close>.
\<close>

theorem onUvReadAlloc_space:
  assumes "onUvReadAlloc junk s suggested_size = (s', base, len)" and "buffer_ok s"
  shows "base = bufferDataLen s
     \<and> len = (if bufferDataLen s < bufferSize s then bufferSize s - bufferDataLen s else 0)
     \<and> s' = s\<lparr> buffer := (if buffer s = None then Some (new_array junk (bufferSize s)) else buffer s) \<rparr>
     \<and> (\<exists>b. buffer s' = Some b \<and> length b = bufferSize s \<and> (len = 0 \<or> base + len = length b))
     \<and> buffer_ok s'
     \<and> buffer (UnixStreamSocket_new (bufferSize s)) = None
     \<and> (0 < nread \<and> nat nread \<le> len \<and> onUvRead env s' nread = Inr s''
          \<longrightarrow> bufferDataLen s'' = bufferDataLen s + nat nread \<and> bufferDataLen s'' \<le> bufferSize s'')"
proof -
  from assms(1) have s': "s' = s\<lparr> buffer := (if buffer s = None then Some (new_array junk (bufferSize s)) else buffer s) \<rparr>"
    and base: "base = bufferDataLen s"
    and len: "len = (if bufferDataLen s < bufferSize s then bufferSize s - bufferDataLen s else 0)"
    by (auto simp: onUvReadAlloc_def Let_def split: if_splits)
  have b: "\<exists>b. buffer s' = Some b \<and> length b = bufferSize s \<and> (len = 0 \<or> base + len = length b)"
    using assms(2) by (auto simp: s' base len buffer_ok_def new_array_def split: option.splits)
  have ok: "buffer_ok s'"
    using assms(2) by (auto simp: s' buffer_ok_def new_array_def split: option.splits)
  have n: "buffer (UnixStreamSocket_new (bufferSize s)) = None"
    by (simp add: UnixStreamSocket_new_def)
  have rd: "bufferDataLen s'' = bufferDataLen s + nat nread \<and> bufferDataLen s'' \<le> bufferSize s''"
    if "0 < nread" "nat nread \<le> len" "onUvRead env s' nread = Inr s''"
    using that by (auto simp: onUvRead_def s' len split: if_splits)
  from s' base len b ok n rd show ?thesis by blast
qed

theorem onUvReadAlloc_space_witness:
  "onUvReadAlloc zero_fill (UnixStreamSocket_new 4) 65536
     = ((UnixStreamSocket_new 4)\<lparr> buffer := Some [0, 0, 0, 0] \<rparr>, 0, 4)
   \<and> buffer_ok (UnixStreamSocket_new 4)
   \<and> onUvRead env0 ((UnixStreamSocket_new 4)\<lparr> buffer := Some [0, 0, 0, 0] \<rparr>) 3
        = Inr ((UnixStreamSocket_new 4)\<lparr> buffer := Some [0, 0, 0, 0], bufferDataLen := 3,
                                          userReads := 1 \<rparr>)"
proof -
  let ?s = "UnixStreamSocket_new 4"
  let ?s' = "?s\<lparr> buffer := Some [0, 0, 0, 0] \<rparr>"
  let ?s'' = "?s\<lparr> buffer := Some [0, 0, 0, 0], bufferDataLen := 3, userReads := 1 \<rparr>"
  have a: "onUvReadAlloc zero_fill ?s 65536 = (?s', 0, 4)"
    by (simp add: onUvReadAlloc_def UnixStreamSocket_new_def new_array_def zero_fill_def Let_def upt_rec)
  have k: "buffer_ok ?s" by (simp add: buffer_ok_def UnixStreamSocket_new_def)
  have r: "onUvRead env0 ?s' 3 = Inr ?s''"
    by (simp add: onUvRead_def UnixStreamSocket_new_def)
  from onUvReadAlloc_space [OF a k, of 3 env0 ?s''] r
  have "bufferDataLen ?s'' \<le> bufferSize ?s''" by simp
  with a k r show ?thesis by simp
qed

subsection \<open>Write errors\<close>

text \<open>
  C4, as the code has it: when a write completes with \<open>UV_EPIPE\<close> or \<open>UV_ENOTCONN\<close>,
  \<open>onUvWriteError\<close> does nothing on a socket that is closing already and otherwise calls
  \<open>Close\<close> on the unchanged socket. The error flag stays as it was; the socket is marked
  as closing and stops reading; \<open>Close\<close> requests the graceful shutdown unless the error
  flag or \<open>isClosedByPeer\<close> had been set before, in which case it closes the handle.
\<close>

theorem onUvWriteError_pipe:
  assumes "error = UV_EPIPE \<or> error = UV_ENOTCONN"
  shows "onUvWriteError env s error = (if isClosing s then Inr s else Close env s)
     \<and> (onUvWriteError env s error = Inr s' \<longrightarrow>
          hasError s' = hasError s \<and> isClosing s'
          \<and> (\<not> isClosing s \<longrightarrow>
               \<not> reading (uvHandle s')
               \<and> (if hasError s \<or> isClosedByPeer s
                   then closing (uvHandle s') = True \<and> shutdown_req (uvHandle s') = shutdown_req (uvHandle s)
                   else shutdown_req (uvHandle s') = True \<and> closing (uvHandle s') = closing (uvHandle s))))"
  using assms
  by (auto simp: onUvWriteError_def Close_def Let_def uv_read_stop_def uv_shutdown_def uv_close_def
      split: if_splits)

theorem onUvWriteError_pipe_witness:
  "(UV_EPIPE = UV_EPIPE \<or> UV_EPIPE = UV_ENOTCONN)
   \<and> onUvWriteError env0 (UnixStreamSocket_new 16) UV_EPIPE = Close env0 (UnixStreamSocket_new 16)"
  using onUvWriteError_pipe [of UV_EPIPE env0 "UnixStreamSocket_new 16"]
  by (simp add: UnixStreamSocket_new_def)

text \<open>
  A new socket whose write fails with \<open>UV_EPIPE\<close>: the error flag is not set, and the
  shutdown is requested.
\<close>

theorem onUvWriteError_pipe_no_error_flag_counterexample:
  "onUvWriteError env0 (UnixStreamSocket_new 16) UV_EPIPE
     = Inr \<lparr> uvHandle = \<lparr> reading = False, shutdown_req = True, closing = False, written = [] \<rparr>,
             bufferSize = 16, buffer = None, bufferDataLen = 0,
             isClosing = True, isClosedByPeer = False, hasError = False,
             userReads = 0, userClosed = [], deleted = False \<rparr>"
  by (simp add: sock_eval)

text \<open>The error flag is set for every other error.\<close>

lemma onUvWriteError_other:
  assumes "error \<noteq> UV_EPIPE" "error \<noteq> UV_ENOTCONN" "\<not> isClosing s"
  shows "onUvWriteError env s error = Close env (s\<lparr> hasError := True \<rparr>)"
  using assms by (simp add: onUvWriteError_def)

subsection \<open>The closed callback\<close>

lemma Close_open:
  assumes "sock_open s" and "Close env s = Inr s'"
  shows "sock_closing s' \<and> isClosedByPeer s' = isClosedByPeer s"
  using assms
  by (auto simp: Close_def sock_open_def sock_closing_def Let_def uv_read_stop_def uv_shutdown_def
      uv_close_def split: if_splits)

lemma Close_closing:
  assumes "isClosing s" shows "Close env s = Inr s"
  using assms by (simp add: Close_def)

lemma hand_over_open: "sock_open (uv_hand_over b s) = sock_open s"
  "isClosedByPeer (uv_hand_over b s) = isClosedByPeer s"
  "isClosing (uv_hand_over b s) = isClosing s"
  by (simp_all add: sock_open_def uv_hand_over_def)

lemma Write_pending_open:
  assumes "sock_open s" "\<not> isClosedByPeer s" and "Write_pending env s data w = Inr s'"
  shows "sock_open s' \<and> \<not> isClosedByPeer s'"
  using assms
  by (auto simp: Write_pending_def Let_def hand_over_open split: if_splits)

lemma Write_open:
  assumes "sock_open s" "\<not> isClosedByPeer s" and "Write env s data = Inr s'"
  shows "if starts_closing (env, CallWrite data)
         then sock_closing s' \<and> \<not> isClosedByPeer s'
         else sock_open s' \<and> \<not> isClosedByPeer s'"
proof -
  have nc: "\<not> isClosing s" using assms(1) by (simp add: sock_open_def)
  show ?thesis
  proof (cases "starts_closing (env, CallWrite data)")
    case True
    then have "Write env s data = Close env s"
      using nc by (auto simp: starts_closing_def Write_def Let_def)
    with assms Close_open [of s env s'] True show ?thesis by simp
  next
    case False
    have "sock_open s' \<and> \<not> isClosedByPeer s'"
    proof (cases "data = []")
      case True
      then have "Write env s data = Inr s" by (simp add: Write_def)
      with assms show ?thesis by simp
    next
      case ne: False
      let ?res = "uv_try_write_r env"
      consider (all) "?res = int_of_size_t (length data)"
        | (again) "?res \<noteq> int_of_size_t (length data)" "?res = UV_EAGAIN \<or> ?res = UV_ENOSYS"
        | (some) "?res \<noteq> int_of_size_t (length data)" "?res \<noteq> UV_EAGAIN" "?res \<noteq> UV_ENOSYS" "\<not> ?res < 0"
        using False ne by (auto simp: starts_closing_def)
      then show ?thesis
      proof cases
        case all
        with assms nc ne show ?thesis by (auto simp: Write_def Let_def hand_over_open)
      next
        case again
        with assms(3) nc ne have "Write_pending env s data 0 = Inr s'"
          by (auto simp: Write_def Let_def)
        from Write_pending_open [OF assms(1,2) this] show ?thesis .
      next
        case some
        with assms(3) nc ne have "Write_pending env s data (nat ?res) = Inr s'"
          by (auto simp: Write_def Let_def)
        from Write_pending_open [OF assms(1,2) this] show ?thesis .
      qed
    qed
    with False show ?thesis by simp
  qed
qed

lemma onUvRead_open:
  assumes "sock_open s" "\<not> isClosedByPeer s" and "onUvRead env s nread = Inr s'"
  shows "if nread < 0
         then sock_closing s' \<and> (isClosedByPeer s' \<longleftrightarrow> nread = UV_EOF \<or> nread = UV_ECONNRESET)
         else sock_open s' \<and> \<not> isClosedByPeer s'"
proof (cases "nread < 0")
  case False
  with assms show ?thesis
    by (auto simp: onUvRead_def sock_open_def split: if_splits)
next
  case True
  show ?thesis
  proof (cases "nread = UV_EOF \<or> nread = UV_ECONNRESET")
    case peer: True
    with True assms(3) have c: "Close env (s\<lparr> isClosedByPeer := True \<rparr>) = Inr s'"
      by (auto simp: onUvRead_def)
    have "sock_open (s\<lparr> isClosedByPeer := True \<rparr>)" using assms(1) by (simp add: sock_open_def)
    from Close_open [OF this c] True peer show ?thesis by simp
  next
    case err: False
    with True assms(3) have c: "Close env (s\<lparr> hasError := True \<rparr>) = Inr s'"
      by (auto simp: onUvRead_def)
    have "sock_open (s\<lparr> hasError := True \<rparr>)" using assms(1) by (simp add: sock_open_def)
    from Close_open [OF this c] True err assms(2) show ?thesis by simp
  qed
qed

lemma on_write_open:
  assumes "sock_open s" "\<not> isClosedByPeer s" and "on_write env s status = Inr s'"
  shows "if status \<noteq> 0 then sock_closing s' \<and> \<not> isClosedByPeer s'
         else sock_open s' \<and> \<not> isClosedByPeer s'"
proof (cases "status = 0")
  case True
  with assms show ?thesis by (simp add: on_write_def)
next
  case False
  have nc: "\<not> isClosing s" using assms(1) by (simp add: sock_open_def)
  show ?thesis
  proof (cases "status = UV_EPIPE \<or> status = UV_ENOTCONN")
    case True
    with False nc assms(3) have c: "Close env s = Inr s'"
      by (auto simp: on_write_def onUvWriteError_def)
    from Close_open [OF assms(1) c] False assms(2) show ?thesis by simp
  next
    case other: False
    with False nc assms(3) have c: "Close env (s\<lparr> hasError := True \<rparr>) = Inr s'"
      by (auto simp: on_write_def onUvWriteError_def)
    have "sock_open (s\<lparr> hasError := True \<rparr>)" using assms(1) by (simp add: sock_open_def)
    from Close_open [OF this c] False assms(2) show ?thesis by simp
  qed
qed

lemma step_open:
  assumes "sock_open s" "\<not> isClosedByPeer s" and "step (env, ev) s = Inr s'"
  shows "if starts_closing (env, ev)
         then sock_closing s' \<and> (isClosedByPeer s' \<longleftrightarrow> read_disconnect (env, ev))
         else sock_open s' \<and> \<not> isClosedByPeer s'"
proof (cases ev)
  case CallClose
  with assms have "Close env s = Inr s'" by (simp add: step_def sock_open_def)
  from Close_open [OF assms(1) this] assms(2) CallClose show ?thesis
    by (simp add: starts_closing_def read_disconnect_def)
next
  case (CallWrite data)
  with assms have "Write env s data = Inr s'" by (simp add: step_def sock_open_def)
  from Write_open [OF assms(1,2) this] CallWrite show ?thesis
    by (simp add: read_disconnect_def split: if_splits)
next
  case (OnRead nread)
  with assms have "onUvRead env s nread = Inr s'" by (simp add: step_def sock_open_def)
  from onUvRead_open [OF assms(1,2) this] OnRead show ?thesis
    by (simp add: starts_closing_def read_disconnect_def split: if_splits)
next
  case (OnWrite status)
  with assms have "on_write env s status = Inr s'" by (simp add: step_def sock_open_def)
  from on_write_open [OF assms(1,2) this] OnWrite show ?thesis
    by (simp add: starts_closing_def read_disconnect_def split: if_splits)
next
  case (OnShutdown status)
  with assms have "s' = s" by (simp add: step_def sock_open_def)
  with assms OnShutdown show ?thesis by (simp add: starts_closing_def)
next
  case OnClose
  with assms have "s' = s" by (simp add: step_def sock_open_def)
  with assms OnClose show ?thesis by (simp add: starts_closing_def)
qed

lemma step_closing:
  assumes "sock_closing s" and "step (env, ev) s = Inr s'"
  shows "sock_closing s' \<and> isClosedByPeer s' = isClosedByPeer s"
proof -
  have c: "isClosing s" using assms(1) by (simp add: sock_closing_def)
  show ?thesis
  proof (cases ev)
    case CallClose
    with assms c show ?thesis by (auto simp: step_def Close_def split: if_splits)
  next
    case (CallWrite data)
    with assms c show ?thesis by (auto simp: step_def Write_def split: if_splits)
  next
    case (OnRead nread)
    with assms show ?thesis by (auto simp: step_def sock_closing_def split: if_splits)
  next
    case (OnWrite status)
    with assms c show ?thesis
      by (auto simp: step_def on_write_def onUvWriteError_def split: if_splits)
  next
    case (OnShutdown status)
    with assms show ?thesis
      by (auto simp: step_def sock_closing_def onUvShutdown_def uv_close_def split: if_splits)
  next
    case OnClose
    with assms show ?thesis
      by (auto simp: step_def sock_closing_def onUvClosed_def split: if_splits)
  qed
qed

lemma run_closing:
  "sock_closing s \<Longrightarrow> run evs s = Inr s' \<Longrightarrow>
     sock_closing s' \<and> isClosedByPeer s' = isClosedByPeer s"
proof (induction evs arbitrary: s)
  case Nil
  then show ?case by simp
next
  case (Cons ee evs)
  obtain env ev where ee: "ee = (env, ev)" by (cases ee)
  from Cons.prems(2) obtain s1 where s1: "step (env, ev) s = Inr s1" and r: "run evs s1 = Inr s'"
    by (auto simp: ee split: sum.splits)
  from step_closing [OF Cons.prems(1) s1] Cons.IH [OF _ r] show ?case by simp
qed

lemma run_open:
  "sock_open s \<Longrightarrow> \<not> isClosedByPeer s \<Longrightarrow> run evs s = Inr s' \<Longrightarrow>
     (if list_ex starts_closing evs
      then sock_closing s' \<and> isClosedByPeer s' = read_disconnect_first evs
      else sock_open s' \<and> \<not> isClosedByPeer s')"
proof (induction evs arbitrary: s)
  case Nil
  then show ?case by simp
next
  case (Cons ee evs)
  obtain env ev where ee: "ee = (env, ev)" by (cases ee)
  from Cons.prems(3) obtain s1 where s1: "step (env, ev) s = Inr s1" and r: "run evs s1 = Inr s'"
    by (auto simp: ee split: sum.splits)
  note st = step_open [OF Cons.prems(1,2) s1]
  show ?case
  proof (cases "starts_closing (env, ev)")
    case True
    with st have "sock_closing s1" "isClosedByPeer s1 = read_disconnect (env, ev)" by simp_all
    with run_closing [OF this(1) r] True show ?thesis by (simp add: ee)
  next
    case False
    with st have "sock_open s1" "\<not> isClosedByPeer s1" by simp_all
    from Cons.IH [OF this r] False show ?thesis by (simp add: ee)
  qed
qed

lemma drain_closing:
  assumes "sock_closing s"
  shows "userClosed (drain s) = [isClosedByPeer s]" and "length (userClosed s) \<le> 1"
  using assms
  by (auto simp: sock_closing_def drain_def Let_def onUvShutdown_def onUvClosed_def uv_close_def
      split: if_splits)

lemma drain_open:
  assumes "sock_open s"
  shows "userClosed (drain s) = []" and "length (userClosed s) \<le> 1"
  using assms by (auto simp: sock_open_def drain_def Let_def)

text \<open>
  When the closing is started by a read that ends with \<open>UV_EOF\<close> or \<open>UV_ECONNRESET\<close>, the
  peer has closed its side of the pipe first, in the words of the spec. The converse fails.
\<close>

lemma read_disconnect_first_peer:
  "read_disconnect_first evs \<Longrightarrow> peer_closed_pipe_first evs"
  by (induction evs) (auto simp: read_disconnect_def peer_close_sign_def split: event.splits)

text \<open>
  C6, as the code has it: take a new socket and any sequence of calls by its owner and
  callbacks of libuv that runs without a fault, and let the event loop deliver what is
  pending at the end. No matter how often \<open>Close\<close> is called, the peer disconnects or I/O
  fails, \<open>userOnUnixStreamSocketClosed\<close> is called exactly once if any event of the
  sequence starts the closing (and not at all otherwise), and never more than once on the
  way. Its argument is the flag \<open>isClosedByPeer\<close>, which is true exactly when the first
  event that starts the closing is a read that ends with \<open>UV_EOF\<close> or \<open>UV_ECONNRESET\<close>.
\<close>

theorem closed_callback_once:
  assumes "run evs (UnixStreamSocket_new n) = Inr s"
  shows "length (userClosed s) \<le> 1
         \<and> userClosed (drain s)
             = (if list_ex starts_closing evs then [read_disconnect_first evs] else [])"
proof -
  have o: "sock_open (UnixStreamSocket_new n)" and p: "\<not> isClosedByPeer (UnixStreamSocket_new n)"
    by (simp_all add: sock_open_def UnixStreamSocket_new_def)
  note r = run_open [OF o p assms]
  show ?thesis
  proof (cases "list_ex starts_closing evs")
    case True
    with r have "sock_closing s" "isClosedByPeer s = read_disconnect_first evs" by simp_all
    with drain_closing [OF this(1)] True show ?thesis by simp
  next
    case False
    with r have "sock_open s" by simp
    with drain_open [OF this] False show ?thesis by simp
  qed
qed

theorem closed_callback_once_witness:
  "\<exists>s. run [(env0, OnRead 5), (env0, OnRead UV_EOF), (env0, CallClose), (env0, OnWrite UV_EPIPE)]
           (UnixStreamSocket_new 16) = Inr s
        \<and> userClosed (drain s) = [True]"
proof -
  let ?evs = "[(env0, OnRead 5), (env0, OnRead UV_EOF), (env0, CallClose), (env0, OnWrite UV_EPIPE)]"
  obtain s where r: "run ?evs (UnixStreamSocket_new 16) = Inr s"
    by (simp add: sock_eval)
  have t: "list_ex starts_closing ?evs" "read_disconnect_first ?evs"
    by (simp_all add: starts_closing_def read_disconnect_def sock_eval)
  from closed_callback_once [OF r] t have "userClosed (drain s) = [True]" by simp
  with r show ?thesis by blast
qed

text \<open>
  The peer closes its side of the pipe, and the socket learns of it through a write that
  fails with \<open>UV_EPIPE\<close>, before any read: the callback is called once, with \<open>false\<close>.
\<close>

theorem closed_callback_peer_first_counterexample:
  "closed_callbacks [(env0, OnWrite UV_EPIPE)] 16 = Some [False]
   \<and> peer_closed_pipe_first [(env0, OnWrite UV_EPIPE)]"
  by (simp add: closed_callbacks_def drain_def starts_closing_def peer_close_sign_def sock_eval)

section \<open>Verification: Room\<close>

lemma peers_simps [simp]:
  "mapRtpReceiverRtpSenders (update_peer q f R) = mapRtpReceiverRtpSenders R"
  "mapRtpSenderRtpReceiver (update_peer q f R) = mapRtpSenderRtpReceiver R"
  "mapRtpReceiverRtpSenders (update_peers f R) = mapRtpReceiverRtpSenders R"
  "mapRtpSenderRtpReceiver (update_peers f R) = mapRtpSenderRtpReceiver R"
  by (simp_all add: update_peer_def update_peers_def)

lemma routing_symmetric_peers [simp]:
  "routing_symmetric (R\<lparr> peers := ps \<rparr>) = routing_symmetric R"
  by (simp add: routing_symmetric_def)

lemma routing_symmetric_update_peer [simp]:
  "routing_symmetric (update_peer q f R) = routing_symmetric R" "routing_symmetric (update_peers f R) = routing_symmetric R"
  by (simp_all add: routing_symmetric_def)

lemma routing_symmetric_new: "routing_symmetric Room_new"
  by (simp add: routing_symmetric_def Room_new_def)

lemma routing_symmetric_AddPeer: "routing_symmetric R \<Longrightarrow> routing_symmetric (AddPeer pid R)"
  by (simp add: AddPeer_def)

lemma set_insert_set [simp]: "set (set_insert x xs) = insert x (set xs)"
  by (auto simp: set_insert_def)

lemma set_erase_set [simp]: "set (set_erase x xs) = set xs - {x}"
  by (simp add: set_erase_def)

lemma routing_symmetricI:
  assumes "\<And>r S s. mapRtpReceiverRtpSenders R r = Some S \<Longrightarrow> s \<in> set S \<Longrightarrow>
                 mapRtpSenderRtpReceiver R s = Some r"
    and "\<And>s r. mapRtpSenderRtpReceiver R s = Some r \<Longrightarrow>
                 \<exists>S. mapRtpReceiverRtpSenders R r = Some S \<and> s \<in> set S"
  shows "routing_symmetric R"
  using assms unfolding routing_symmetric_def by blast

lemma routing_symmetricD1:
  "routing_symmetric R \<Longrightarrow> mapRtpReceiverRtpSenders R r = Some S \<Longrightarrow> s \<in> set S \<Longrightarrow>
     mapRtpSenderRtpReceiver R s = Some r"
  unfolding routing_symmetric_def by blast

lemma routing_symmetricD2:
  "routing_symmetric R \<Longrightarrow> mapRtpSenderRtpReceiver R s = Some r \<Longrightarrow>
     \<exists>S. mapRtpReceiverRtpSenders R r = Some S \<and> s \<in> set S"
  unfolding routing_symmetric_def by blast

lemma add_sender_maps:
  "mapRtpSenderRtpReceiver (add_sender r q s R) = (mapRtpSenderRtpReceiver R)(s \<mapsto> r)"
  "mapRtpReceiverRtpSenders (add_sender r q s R) =
     (mapRtpReceiverRtpSenders R)
       (r \<mapsto> set_insert s (case mapRtpReceiverRtpSenders R r of None \<Rightarrow> [] | Some S \<Rightarrow> S))"
  by (simp_all add: add_sender_def)

lemma routing_symmetric_add_sender:
  assumes sym: "routing_symmetric R"
    and fresh: "mapRtpSenderRtpReceiver R s = None \<or> mapRtpSenderRtpReceiver R s = Some r"
  shows "routing_symmetric (add_sender r q s R)"
proof (rule routing_symmetricI)
  fix r' S' x
  assume m: "mapRtpReceiverRtpSenders (add_sender r q s R) r' = Some S'" and x: "x \<in> set S'"
  show "mapRtpSenderRtpReceiver (add_sender r q s R) x = Some r'"
  proof (cases "r' = r")
    case True
    with m x have "x = s \<or> (\<exists>S. mapRtpReceiverRtpSenders R r = Some S \<and> x \<in> set S)"
      by (auto simp: add_sender_maps split: option.splits)
    then show ?thesis
      using True routing_symmetricD1 [OF sym] by (auto simp: add_sender_maps)
  next
    case False
    with m have "mapRtpReceiverRtpSenders R r' = Some S'" by (simp add: add_sender_maps)
    from routing_symmetricD1 [OF sym this x] have mx: "mapRtpSenderRtpReceiver R x = Some r'" .
    with fresh False have "x \<noteq> s" by auto
    with mx show ?thesis by (simp add: add_sender_maps)
  qed
next
  fix x r'
  assume m: "mapRtpSenderRtpReceiver (add_sender r q s R) x = Some r'"
  show "\<exists>S. mapRtpReceiverRtpSenders (add_sender r q s R) r' = Some S \<and> x \<in> set S"
  proof (cases "x = s")
    case True
    with m have "r' = r" by (simp add: add_sender_maps)
    with True show ?thesis by (simp add: add_sender_maps)
  next
    case False
    with m have "mapRtpSenderRtpReceiver R x = Some r'" by (simp add: add_sender_maps)
    from routing_symmetricD2 [OF sym this] obtain S where
      "mapRtpReceiverRtpSenders R r' = Some S" "x \<in> set S" by blast
    then show ?thesis by (cases "r' = r") (simp_all add: add_sender_maps)
  qed
qed

lemma routing_symmetric_fold_add_sender:
  "routing_symmetric R \<Longrightarrow>
   \<forall>q \<in> set qs. mapRtpSenderRtpReceiver R (new_id q) = None
                  \<or> mapRtpSenderRtpReceiver R (new_id q) = Some r \<Longrightarrow>
     routing_symmetric (fold (\<lambda>q. add_sender r q (new_id q)) qs R)"
proof (induction qs arbitrary: R)
  case Nil
  then show ?case by simp
next
  case (Cons q qs)
  have 1: "routing_symmetric (add_sender r q (new_id q) R)"
    using Cons.prems by (simp add: routing_symmetric_add_sender)
  have 2: "\<forall>q' \<in> set qs. mapRtpSenderRtpReceiver (add_sender r q (new_id q) R) (new_id q') = None
                  \<or> mapRtpSenderRtpReceiver (add_sender r q (new_id q) R) (new_id q') = Some r"
    using Cons.prems(2) by (simp add: add_sender_maps)
  from Cons.IH [OF 1 2] show ?case by simp
qed

lemma routing_symmetric_touch_receiver:
  assumes "routing_symmetric R"
  shows "routing_symmetric (R\<lparr> mapRtpReceiverRtpSenders :=
                       (mapRtpReceiverRtpSenders R)
                         (r \<mapsto> (case mapRtpReceiverRtpSenders R r of None \<Rightarrow> [] | Some S \<Rightarrow> S)) \<rparr>)"
proof (rule routing_symmetricI)
  fix r' S' x
  assume "mapRtpReceiverRtpSenders (R\<lparr> mapRtpReceiverRtpSenders :=
                       (mapRtpReceiverRtpSenders R)
                         (r \<mapsto> (case mapRtpReceiverRtpSenders R r of None \<Rightarrow> [] | Some S \<Rightarrow> S)) \<rparr>) r' = Some S'"
    and "x \<in> set S'"
  then have "mapRtpReceiverRtpSenders R r' = Some S'"
    by (cases "r' = r") (auto split: option.splits)
  from routing_symmetricD1 [OF assms this \<open>x \<in> set S'\<close>]
  show "mapRtpSenderRtpReceiver (R\<lparr> mapRtpReceiverRtpSenders :=
                       (mapRtpReceiverRtpSenders R)
                         (r \<mapsto> (case mapRtpReceiverRtpSenders R r of None \<Rightarrow> [] | Some S \<Rightarrow> S)) \<rparr>) x = Some r'"
    by simp
next
  fix x r'
  assume "mapRtpSenderRtpReceiver (R\<lparr> mapRtpReceiverRtpSenders :=
                       (mapRtpReceiverRtpSenders R)
                         (r \<mapsto> (case mapRtpReceiverRtpSenders R r of None \<Rightarrow> [] | Some S \<Rightarrow> S)) \<rparr>) x = Some r'"
  then have "mapRtpSenderRtpReceiver R x = Some r'" by simp
  from routing_symmetricD2 [OF assms this] obtain S where
    "mapRtpReceiverRtpSenders R r' = Some S" "x \<in> set S" by blast
  then show "\<exists>S. mapRtpReceiverRtpSenders (R\<lparr> mapRtpReceiverRtpSenders :=
                       (mapRtpReceiverRtpSenders R)
                         (r \<mapsto> (case mapRtpReceiverRtpSenders R r of None \<Rightarrow> [] | Some S \<Rightarrow> S)) \<rparr>) r' = Some S \<and> x \<in> set S"
    by (cases "r' = r") simp_all
qed

lemma routing_symmetric_receiver_added:
  assumes "routing_symmetric R"
    and "\<forall>q \<in> fst ` set (peers R). new_id q \<notin> dom (mapRtpSenderRtpReceiver R)"
  shows "routing_symmetric (onPeerRtpReceiverParameters pid r new_id R)"
proof (cases "pid \<in> fst ` set (peers R)")
  case False
  with assms(1) show ?thesis by (simp add: onPeerRtpReceiverParameters_def)
next
  case True
  let ?R1 = "update_peer pid (\<lambda>P. P\<lparr> rtpReceivers := set_insert r (rtpReceivers P) \<rparr>) R"
  let ?R2 = "?R1\<lparr> mapRtpReceiverRtpSenders :=
                       (mapRtpReceiverRtpSenders ?R1)
                         (r \<mapsto> (case mapRtpReceiverRtpSenders ?R1 r of None \<Rightarrow> [] | Some S \<Rightarrow> S)) \<rparr>"
  have "routing_symmetric ?R1" using assms(1) by simp
  then have s2: "routing_symmetric ?R2" by (rule routing_symmetric_touch_receiver)
  have fr: "\<forall>q \<in> set (filter (\<lambda>q. q \<noteq> pid) (map fst (peers R))).
              mapRtpSenderRtpReceiver ?R2 (new_id q) = None
              \<or> mapRtpSenderRtpReceiver ?R2 (new_id q) = Some r"
    using assms(2) by (auto simp: domIff)
  from routing_symmetric_fold_add_sender [OF s2 fr] True show ?thesis
    by (simp add: onPeerRtpReceiverParameters_def Let_def)
qed

lemma sender_closed_maps:
  "mapRtpSenderRtpReceiver (onPeerRtpSenderClosed s R) = (mapRtpSenderRtpReceiver R)(s := None)"
  "mapRtpReceiverRtpSenders (onPeerRtpSenderClosed s R) =
     (case mapRtpSenderRtpReceiver R s of
        None \<Rightarrow> mapRtpReceiverRtpSenders R
      | Some r \<Rightarrow>
          (case mapRtpReceiverRtpSenders R r of
             None \<Rightarrow> mapRtpReceiverRtpSenders R
           | Some S \<Rightarrow> (mapRtpReceiverRtpSenders R)(r \<mapsto> set_erase s S)))"
  by (simp_all add: onPeerRtpSenderClosed_def)

lemma sender_closed_set:
  assumes "mapRtpReceiverRtpSenders (onPeerRtpSenderClosed s R) r' = Some S'"
  shows "\<exists>S. mapRtpReceiverRtpSenders R r' = Some S \<and> set S' \<subseteq> set S
             \<and> (mapRtpSenderRtpReceiver R s = Some r' \<longrightarrow> s \<notin> set S')
             \<and> set S - {s} \<subseteq> set S'"
  using assms
  by (auto simp: sender_closed_maps split: option.splits if_splits)

lemma routing_symmetric_sender_closed:
  assumes sym: "routing_symmetric R"
  shows "routing_symmetric (onPeerRtpSenderClosed s R)"
proof (rule routing_symmetricI)
  fix r' S' x
  assume m: "mapRtpReceiverRtpSenders (onPeerRtpSenderClosed s R) r' = Some S'" and x: "x \<in> set S'"
  from sender_closed_set [OF m] obtain S where
    S: "mapRtpReceiverRtpSenders R r' = Some S" "set S' \<subseteq> set S"
       "mapRtpSenderRtpReceiver R s = Some r' \<longrightarrow> s \<notin> set S'" by blast
  with x have "x \<in> set S" by blast
  from routing_symmetricD1 [OF sym S(1) this] have mx: "mapRtpSenderRtpReceiver R x = Some r'" .
  with S(3) x have "x \<noteq> s" by blast
  with mx show "mapRtpSenderRtpReceiver (onPeerRtpSenderClosed s R) x = Some r'"
    by (simp add: sender_closed_maps)
next
  fix x r'
  assume m: "mapRtpSenderRtpReceiver (onPeerRtpSenderClosed s R) x = Some r'"
  then have ne: "x \<noteq> s" and mx: "mapRtpSenderRtpReceiver R x = Some r'"
    by (auto simp: sender_closed_maps split: if_splits)
  from routing_symmetricD2 [OF sym mx] obtain S where
    S: "mapRtpReceiverRtpSenders R r' = Some S" "x \<in> set S" by blast
  with ne show "\<exists>S. mapRtpReceiverRtpSenders (onPeerRtpSenderClosed s R) r' = Some S \<and> x \<in> set S"
    by (auto simp: sender_closed_maps split: option.splits)
qed

lemma routing_symmetric_fold_sender_closed:
  "routing_symmetric R \<Longrightarrow> routing_symmetric (fold onPeerRtpSenderClosed ss R)"
  by (induction ss arbitrary: R) (simp_all add: routing_symmetric_sender_closed)

lemma fold_sender_closed_map:
  "mapRtpSenderRtpReceiver (fold onPeerRtpSenderClosed ss R) x
     = (if x \<in> set ss then None else mapRtpSenderRtpReceiver R x)"
  by (induction ss arbitrary: R) (simp_all add: sender_closed_maps)

lemma fold_sender_closed_set:
  "mapRtpReceiverRtpSenders (fold onPeerRtpSenderClosed ss R) r' = Some S' \<Longrightarrow>
     \<exists>S. mapRtpReceiverRtpSenders R r' = Some S \<and> set S' \<subseteq> set S"
proof (induction ss arbitrary: R)
  case Nil
  then show ?case by simp
next
  case (Cons s ss)
  then have "mapRtpReceiverRtpSenders (fold onPeerRtpSenderClosed ss (onPeerRtpSenderClosed s R)) r'
               = Some S'" by simp
  from Cons.IH [OF this] obtain S1 where
    "mapRtpReceiverRtpSenders (onPeerRtpSenderClosed s R) r' = Some S1" "set S' \<subseteq> set S1" by blast
  with sender_closed_set [OF this(1)] show ?case by blast
qed

lemma routing_symmetric_receiver_closed:
  assumes sym: "routing_symmetric R"
  shows "routing_symmetric (onPeerRtpReceiverClosed r R)"
proof -
  let ?ss = "case mapRtpReceiverRtpSenders R r of None \<Rightarrow> [] | Some S \<Rightarrow> S"
  let ?R1 = "fold onPeerRtpSenderClosed ?ss R"
  have s1: "routing_symmetric ?R1" using sym by (rule routing_symmetric_fold_sender_closed)
  have none: "mapRtpSenderRtpReceiver ?R1 x \<noteq> Some r" for x
  proof
    assume a: "mapRtpSenderRtpReceiver ?R1 x = Some r"
    from routing_symmetricD2 [OF s1 a] obtain S1 where
      S1: "mapRtpReceiverRtpSenders ?R1 r = Some S1" "x \<in> set S1" by blast
    from fold_sender_closed_set [OF S1(1)] obtain S where
      S: "mapRtpReceiverRtpSenders R r = Some S" "set S1 \<subseteq> set S" by blast
    with S1(2) have "x \<in> set ?ss" by auto
    then have "mapRtpSenderRtpReceiver ?R1 x = None" by (simp add: fold_sender_closed_map)
    with a show False by simp
  qed
  have "routing_symmetric (?R1\<lparr> mapRtpReceiverRtpSenders := (mapRtpReceiverRtpSenders ?R1)(r := None) \<rparr>)"
  proof (rule routing_symmetricI)
    fix r' S' x
    assume "mapRtpReceiverRtpSenders (?R1\<lparr> mapRtpReceiverRtpSenders := (mapRtpReceiverRtpSenders ?R1)(r := None) \<rparr>) r' = Some S'"
      and x: "x \<in> set S'"
    then have "mapRtpReceiverRtpSenders ?R1 r' = Some S'" by (auto split: if_splits)
    from routing_symmetricD1 [OF s1 this x]
    show "mapRtpSenderRtpReceiver (?R1\<lparr> mapRtpReceiverRtpSenders := (mapRtpReceiverRtpSenders ?R1)(r := None) \<rparr>) x = Some r'"
      by simp
  next
    fix x r'
    assume "mapRtpSenderRtpReceiver (?R1\<lparr> mapRtpReceiverRtpSenders := (mapRtpReceiverRtpSenders ?R1)(r := None) \<rparr>) x = Some r'"
    then have a: "mapRtpSenderRtpReceiver ?R1 x = Some r'" by simp
    with none have "r' \<noteq> r" by auto
    with routing_symmetricD2 [OF s1 a]
    show "\<exists>S. mapRtpReceiverRtpSenders (?R1\<lparr> mapRtpReceiverRtpSenders := (mapRtpReceiverRtpSenders ?R1)(r := None) \<rparr>) r' = Some S \<and> x \<in> set S"
      by simp
  qed
  then show ?thesis
    by (simp add: onPeerRtpReceiverClosed_def Let_def routing_symmetric_def)
qed

lemma routing_symmetric_fold_receiver_closed:
  "routing_symmetric R \<Longrightarrow> routing_symmetric (fold onPeerRtpReceiverClosed rs R)"
  by (induction rs arbitrary: R) (simp_all add: routing_symmetric_receiver_closed)

lemma routing_symmetric_peer_closed:
  assumes "routing_symmetric R"
  shows "routing_symmetric (onPeerClosed pid R)"
  using assms
  by (simp add: onPeerClosed_def Let_def routing_symmetric_fold_receiver_closed
      routing_symmetric_fold_sender_closed split: option.splits)

text \<open>
  C5: in every state that a room reaches from a new room by adding peers, adding receivers
  (with senders that are fresh), closing receivers, closing senders and closing peers, each
  sender in the set of a receiver in \<open>mapRtpReceiverRtpSenders\<close> is mapped to that
  receiver by \<open>mapRtpSenderRtpReceiver\<close>, and each sender that
  \<open>mapRtpSenderRtpReceiver\<close> knows is in the set of exactly one receiver. Each operation
  preserves this (the lemmas above).
\<close>

theorem room_symmetric:
  assumes "reachable R"
  shows "(\<forall>r S s. mapRtpReceiverRtpSenders R r = Some S \<longrightarrow> s \<in> set S \<longrightarrow>
                 mapRtpSenderRtpReceiver R s = Some r)
      \<and> (\<forall>s \<in> dom (mapRtpSenderRtpReceiver R).
            \<exists>!r. \<exists>S. mapRtpReceiverRtpSenders R r = Some S \<and> s \<in> set S)"
proof -
  from assms have sym: "routing_symmetric R"
  proof induction
    case new
    show ?case by (rule routing_symmetric_new)
  next
    case (peer_added R pid)
    then show ?case by (simp add: routing_symmetric_AddPeer)
  next
    case (receiver_added R new_id pid r)
    then show ?case by (simp add: routing_symmetric_receiver_added)
  next
    case (receiver_closed R r)
    then show ?case by (simp add: routing_symmetric_receiver_closed)
  next
    case (sender_closed R s)
    then show ?case by (simp add: routing_symmetric_sender_closed)
  next
    case (peer_closed R pid)
    then show ?case by (simp add: routing_symmetric_peer_closed)
  qed
  have one: "\<exists>!r. \<exists>S. mapRtpReceiverRtpSenders R r = Some S \<and> s \<in> set S"
    if "s \<in> dom (mapRtpSenderRtpReceiver R)" for s
  proof -
    from that obtain r where r: "mapRtpSenderRtpReceiver R s = Some r" by blast
    from routing_symmetricD2 [OF sym r] have ex: "\<exists>S. mapRtpReceiverRtpSenders R r = Some S \<and> s \<in> set S" .
    have "r' = r" if "\<exists>S. mapRtpReceiverRtpSenders R r' = Some S \<and> s \<in> set S" for r'
      using that routing_symmetricD1 [OF sym] r by fastforce
    with ex show ?thesis by blast
  qed
  from sym one show ?thesis unfolding routing_symmetric_def by blast
qed

lemmas room_eval = onPeerRtpReceiverParameters_def AddPeer_def Room_new_def add_sender_def
  update_peer_def set_insert_def Let_def

theorem room_symmetric_witness:
  "reachable (onPeerRtpReceiverParameters 1 10 ((*) 10) (AddPeer 3 (AddPeer 2 (AddPeer 1 Room_new))))
   \<and> mapRtpReceiverRtpSenders
        (onPeerRtpReceiverParameters 1 10 ((*) 10) (AddPeer 3 (AddPeer 2 (AddPeer 1 Room_new)))) 10
       = Some [20, 30]
   \<and> mapRtpSenderRtpReceiver
        (onPeerRtpReceiverParameters 1 10 ((*) 10) (AddPeer 3 (AddPeer 2 (AddPeer 1 Room_new)))) 20
       = Some 10
   \<and> mapRtpSenderRtpReceiver
        (onPeerRtpReceiverParameters 1 10 ((*) 10) (AddPeer 3 (AddPeer 2 (AddPeer 1 Room_new)))) 30
       = Some 10"
proof -
  let ?R3 = "AddPeer 3 (AddPeer 2 (AddPeer 1 Room_new))"
  let ?R = "onPeerRtpReceiverParameters 1 10 ((*) 10) ?R3"
  have "reachable ?R3" by (intro reachable.peer_added reachable.new)
  moreover have "\<forall>q \<in> fst ` set (peers ?R3). 10 * q \<notin> dom (mapRtpSenderRtpReceiver ?R3)"
    by (simp add: AddPeer_def Room_new_def)
  ultimately have re: "reachable ?R" by (rule reachable.receiver_added)
  have m: "mapRtpReceiverRtpSenders ?R 10 = Some [20, 30]"
    by (simp add: room_eval)
  from room_symmetric [OF re] m
  have "mapRtpSenderRtpReceiver ?R 20 = Some 10" "mapRtpSenderRtpReceiver ?R 30 = Some 10"
    by auto
  with re m show ?thesis by blast
qed

end
